theory Spec2Isabelle
  imports Complex_Main "HOL-Library.AList" "HOL-Library.Char_ord" "HOL-Library.List_Lexorder"
begin

section \<open>Python values used by \<open>src/utils/perfagg.py\<close>\<close>

text \<open>
  Exceptions are values. Every function of the model that can raise returns
  \<open>error + 'a\<close>, with \<open>Inl\<close> for the exception. OSError stands for itself and its
  subclasses, FileNotFoundError among them. Strings are lists of ASCII characters; the
  source's strings are Unicode, and the model covers the ASCII inputs.
\<close>

datatype error = KeyError | AttributeError | ValueError | ZeroDivisionError
  | IndexError | AssertionError | TypeError | SystemExit | OSError

text \<open>A dictionary is an association list in insertion order; \<open>d[k]\<close> raises KeyError.\<close>

definition lookup :: "('k \<times> 'v) list \<Rightarrow> 'k \<Rightarrow> error + 'v" where
  "lookup d k = (case map_of d k of None \<Rightarrow> Inl KeyError | Some v \<Rightarrow> Inr v)"

text \<open>\<open>xs[a:b]\<close> for non-negative bounds.\<close>

definition slice :: "'a list \<Rightarrow> nat \<Rightarrow> nat \<Rightarrow> 'a list" where
  "slice xs a b = drop a (take b xs)"

text \<open>\<open>sep.join(xs)\<close>.\<close>

fun join :: "string \<Rightarrow> string list \<Rightarrow> string" where
  "join sep [] = []"
| "join sep [x] = x"
| "join sep (x # y # ys) = x @ sep @ join sep (y # ys)"

text \<open>\<open>str(n)\<close> for a non-negative integer.\<close>

definition digit_char :: "nat \<Rightarrow> char" where
  "digit_char d = char_of (48 + d)"

fun str_nat :: "nat \<Rightarrow> string" where
  "str_nat n = (if n < 10 then [digit_char n] else str_nat (n div 10) @ [digit_char (n mod 10)])"

declare str_nat.simps [simp del]

text \<open>\<open>max(xs)\<close> raises ValueError on an empty sequence.\<close>

fun py_max :: "rat list \<Rightarrow> error + rat" where
  "py_max [] = Inl ValueError"
| "py_max (x # xs) = Inr (fold max xs x)"

section \<open>The capacity table\<close>

text \<open>
  \<open>perfmon_config\<close>, lines 35 to 88: for each architecture the number of counters a block
  samples at once, and the number of TCC channels.
\<close>

definition perfmon_config :: "(string \<times> (string \<times> nat) list) list" where
  "perfmon_config =
    [(''vega10'',
       [(''SQ'', 8), (''TA'', 2), (''TD'', 2), (''TCP'', 4), (''TCC'', 4), (''CPC'', 2),
        (''CPF'', 2), (''SPI'', 2), (''GRBM'', 2), (''GDS'', 4), (''TCC_channels'', 16)]),
     (''mi50'',
       [(''SQ'', 8), (''TA'', 2), (''TD'', 2), (''TCP'', 4), (''TCC'', 4), (''CPC'', 2),
        (''CPF'', 2), (''SPI'', 2), (''GRBM'', 2), (''GDS'', 4), (''TCC_channels'', 16)]),
     (''mi100'',
       [(''SQ'', 8), (''TA'', 2), (''TD'', 2), (''TCP'', 4), (''TCC'', 4), (''CPC'', 2),
        (''CPF'', 2), (''SPI'', 2), (''GRBM'', 2), (''GDS'', 4), (''TCC_channels'', 32)]),
     (''mi200'',
       [(''SQ'', 8), (''TA'', 2), (''TD'', 2), (''TCP'', 4), (''TCC'', 4), (''CPC'', 2),
        (''CPF'', 2), (''SPI'', 2), (''GRBM'', 2), (''GDS'', 4), (''TCC_channels'', 32)])]"

section \<open>The bucket structure\<close>

text \<open>
  \<open>pmc_list\<close> is a dictionary whose values are lists of counter names, but for the key
  \<open>TCC2\<close>, whose value is a dictionary from the channel (a string of digits) to a list.
  The record keeps the list-valued entries, \<open>TCC\<close> among them, in \<open>blocks\<close> in the
  dictionary's order, and the value of \<open>TCC2\<close> in \<open>TCC2\<close>.
\<close>

record pmc_list =
  blocks :: "(string \<times> string list) list"
  TCC2 :: "(string \<times> string list) list"

section \<open>\<open>perfmon_emit\<close>\<close>

text \<open>
  Lines 354 to 358: \<open>len(pmc_list[key]) / perfmon_config[soc][key]\<close> for every key that
  is not TCC or TCC2. The quotient is a Python float; the capacities of the table are
  powers of two, so the float is the exact quotient and the model computes it in \<open>rat\<close>.
\<close>

fun pmc_cnt :: "(string \<times> nat) list \<Rightarrow> (string \<times> string list) list \<Rightarrow> error + rat list" where
  "pmc_cnt cfg [] = Inr []"
| "pmc_cnt cfg ((key, bucket) # rest) =
     (if key \<notin> {''TCC'', ''TCC2''} then
        (case lookup cfg key of
           Inl e \<Rightarrow> Inl e
         | Inr N \<Rightarrow>
             if N = 0 then Inl ZeroDivisionError
             else (case pmc_cnt cfg rest of
                     Inl e \<Rightarrow> Inl e
                   | Inr cnts \<Rightarrow> Inr (of_nat (length bucket) / of_nat N # cnts)))
      else pmc_cnt cfg rest)"

text \<open>Line 365: \<open>[len(pmc_list["TCC2"][str(ch)]) for ch in range(tcc_channels)]\<close>.\<close>

fun tcc2_lens :: "(string \<times> string list) list \<Rightarrow> nat list \<Rightarrow> error + nat list" where
  "tcc2_lens tcc2 [] = Inr []"
| "tcc2_lens tcc2 (ch # chs) =
     (case lookup tcc2 (str_nat ch) of
        Inl e \<Rightarrow> Inl e
      | Inr b \<Rightarrow> (case tcc2_lens tcc2 chs of
                    Inl e \<Rightarrow> Inl e
                  | Inr ls \<Rightarrow> Inr (length b # ls)))"

text \<open>Lines 354 to 370: the number of iterations.\<close>

definition niter :: "(string \<times> nat) list \<Rightarrow> pmc_list \<Rightarrow> error + int" where
  "niter cfg pl =
     (case pmc_cnt cfg (blocks pl) of
        Inl e \<Rightarrow> Inl e
      | Inr cnts \<Rightarrow>
     (case lookup cfg ''TCC_channels'' of
        Inl e \<Rightarrow> Inl e
      | Inr tcc_channels \<Rightarrow>
     (case lookup (blocks pl) ''TCC'' of
        Inl e \<Rightarrow> Inl e
      | Inr tcc \<Rightarrow>
     (case lookup cfg ''TCC'' of
        Inl e \<Rightarrow> Inl e
      | Inr N \<Rightarrow>
     if N = 0 then Inl ZeroDivisionError
     else
     (case tcc2_lens (TCC2 pl) [0..<tcc_channels] of
        Inl e \<Rightarrow> Inl e
      | Inr lens \<Rightarrow>
     (case py_max cnts of
        Inl e \<Rightarrow> Inl e
      | Inr m \<Rightarrow>
     (case py_max (map (\<lambda>l. of_nat l / of_nat N) lens) of
        Inl e \<Rightarrow> Inl e
      | Inr m2 \<Rightarrow>
          Inr (max \<lceil>m\<rceil> (\<lceil>of_nat (length tcc) / (of_nat N :: rat)\<rceil> + \<lceil>m2\<rceil>)))))))))"

text \<open>
  One pass: the values that \<open>ip_counters\<close> takes for the keys other than TCC and TCC2, in
  the dictionary's order, and the final value of \<open>tcc_counters\<close>.
\<close>

record pass =
  ip :: "(string \<times> string list) list"
  tcc :: "string list"

text \<open>Lines 381 to 386: the slice of each ordinary block at offset \<open>iter * N\<close>.\<close>

fun ip_slices :: "(string \<times> nat) list \<Rightarrow> (string \<times> string list) list \<Rightarrow> nat
    \<Rightarrow> error + (string \<times> string list) list" where
  "ip_slices cfg [] iter = Inr []"
| "ip_slices cfg ((key, bucket) # rest) iter =
     (if key \<notin> {''TCC'', ''TCC2''} then
        (case lookup cfg key of
           Inl e \<Rightarrow> Inl e
         | Inr N \<Rightarrow>
             (case ip_slices cfg rest iter of
                Inl e \<Rightarrow> Inl e
              | Inr sl \<Rightarrow> Inr ((key, slice bucket (iter * N) (iter * N + N)) # sl)))
      else ip_slices cfg rest iter)"

text \<open>Lines 394 to 397: every channel's slice at offset \<open>tcc2_index * N\<close>, concatenated.\<close>

fun tcc2_slices :: "(string \<times> string list) list \<Rightarrow> nat list \<Rightarrow> nat \<Rightarrow> nat
    \<Rightarrow> error + string list" where
  "tcc2_slices tcc2 [] tcc2_index N = Inr []"
| "tcc2_slices tcc2 (ch # chs) tcc2_index N =
     (case lookup tcc2 (str_nat ch) of
        Inl e \<Rightarrow> Inl e
      | Inr b \<Rightarrow>
          (case tcc2_slices tcc2 chs tcc2_index N of
             Inl e \<Rightarrow> Inl e
           | Inr cs \<Rightarrow> Inr (slice b (tcc2_index * N) (tcc2_index * N + N) @ cs)))"

text \<open>
  Lines 376 to 403: the loop over \<open>range(niter)\<close>, with \<open>tcc2_index\<close> as its state. The
  per-channel counters are taken in the iterations whose slice of the aggregated TCC
  bucket is empty.
\<close>

fun emit_loop :: "(string \<times> nat) list \<Rightarrow> pmc_list \<Rightarrow> nat list \<Rightarrow> nat \<Rightarrow> error + pass list" where
  "emit_loop cfg pl [] tcc2_index = Inr []"
| "emit_loop cfg pl (iter # iters) tcc2_index =
     (case ip_slices cfg (blocks pl) iter of
        Inl e \<Rightarrow> Inl e
      | Inr ips \<Rightarrow>
     (case lookup cfg ''TCC'' of
        Inl e \<Rightarrow> Inl e
      | Inr N \<Rightarrow>
     (case lookup (blocks pl) ''TCC'' of
        Inl e \<Rightarrow> Inl e
      | Inr tccb \<Rightarrow>
     (if slice tccb (iter * N) (iter * N + N) = [] then
        (case lookup cfg ''TCC_channels'' of
           Inl e \<Rightarrow> Inl e
         | Inr tcc_channels \<Rightarrow>
        (case tcc2_slices (TCC2 pl) [0..<tcc_channels] tcc2_index N of
           Inl e \<Rightarrow> Inl e
         | Inr tcc_counters \<Rightarrow>
        (case emit_loop cfg pl iters (tcc2_index + 1) of
           Inl e \<Rightarrow> Inl e
         | Inr ps \<Rightarrow> Inr (\<lparr>ip = ips, tcc = tcc_counters\<rparr> # ps))))
      else
        (case emit_loop cfg pl iters tcc2_index of
           Inl e \<Rightarrow> Inl e
         | Inr ps \<Rightarrow>
             Inr (\<lparr>ip = ips, tcc = slice tccb (iter * N) (iter * N + N)\<rparr> # ps))))))"

text \<open>
  Lines 378, 386 and 402: the text of a pass. A block whose slice is empty adds nothing;
  the TCC counters are always added, after a space.
\<close>

definition pass_line :: "pass \<Rightarrow> string" where
  "pass_line p =
     ''pmc: '' @ concat (map (\<lambda>(key, cs). '' '' @ join '' '' cs) (filter (\<lambda>(key, cs). cs \<noteq> []) (ip p)))
       @ '' '' @ join '' '' (tcc p)"

text \<open>The passes of \<open>perfmon_emit(pmc_list, workload_dir, soc)\<close>.\<close>

definition perfmon_passes :: "pmc_list \<Rightarrow> string \<Rightarrow> error + pass list" where
  "perfmon_passes pl soc =
     (case lookup perfmon_config soc of
        Inl e \<Rightarrow> Inl e
      | Inr cfg \<Rightarrow>
          (case niter cfg pl of
             Inl e \<Rightarrow> Inl e
           | Inr n \<Rightarrow> emit_loop cfg pl [0..<nat n] 0))"

text \<open>Lines 405 to 407: the text written after the passes.\<close>

definition footer :: "string list" where
  "footer = [CHR 0x0A # ''gpu:'' @ [CHR 0x0A], ''range:'' @ [CHR 0x0A], ''kernel:'' @ [CHR 0x0A]]"

text \<open>
  \<open>perfmon_emit\<close>: the strings written to \<open>workload_dir/perfmon/pmc_perf.txt\<close>, one per
  call of \<open>fd.write\<close>.
\<close>

definition perfmon_emit :: "pmc_list \<Rightarrow> string \<Rightarrow> error + string list" where
  "perfmon_emit pl soc =
     (case perfmon_passes pl soc of
        Inl e \<Rightarrow> Inl e
      | Inr ps \<Rightarrow>
          Inr (map (\<lambda>p. pass_line p @ [CHR 0x0A]) ps @ footer))"

section \<open>String operations of \<open>perfmon_coalesce\<close>\<close>

text \<open>\<open>str.isspace\<close> on ASCII: the characters that \<open>strip()\<close> and \<open>split()\<close> remove.\<close>

definition isspace :: "char \<Rightarrow> bool" where
  "isspace c \<longleftrightarrow>
     c \<in> {CHR 0x09, CHR 0x0A, CHR 0x0B, CHR 0x0C, CHR 0x0D, CHR 0x1C, CHR 0x1D, CHR 0x1E,
          CHR 0x1F, CHR 0x20}"

text \<open>\<open>s.strip()\<close>.\<close>

definition strip :: "string \<Rightarrow> string" where
  "strip s = rev (dropWhile isspace (rev (dropWhile isspace s)))"

text \<open>
  \<open>s.split()\<close>: the maximal runs of characters that are not whitespace. \<open>cur\<close> is the
  token being read.
\<close>

fun split_acc :: "string \<Rightarrow> string \<Rightarrow> string list" where
  "split_acc cur [] = (if cur = [] then [] else [cur])"
| "split_acc cur (c # cs) =
     (if isspace c then (if cur = [] then split_acc [] cs else cur # split_acc [] cs)
      else split_acc (cur @ [c]) cs)"

definition split_ws :: "string \<Rightarrow> string list" where
  "split_ws s = split_acc [] s"

text \<open>\<open>s.upper()\<close> on ASCII.\<close>

definition upper_char :: "char \<Rightarrow> char" where
  "upper_char c = (if CHR ''a'' \<le> c \<and> c \<le> CHR ''z'' then char_of (of_char c - (32 :: nat)) else c)"

definition upper :: "string \<Rightarrow> string" where
  "upper s = map upper_char s"

text \<open>
  \<open>xs[i]\<close> for a Python integer: a negative index counts from the end, and an index out
  of range raises IndexError.
\<close>

definition py_index :: "'a list \<Rightarrow> int \<Rightarrow> error + 'a" where
  "py_index xs i =
     (if 0 \<le> i \<and> i < int (length xs) then Inr (xs ! nat i)
      else if i < 0 \<and> - int (length xs) \<le> i then Inr (xs ! nat (int (length xs) + i))
      else Inl IndexError)"

text \<open>\<open>xs.index(x)\<close>, where \<open>x\<close> is in \<open>xs\<close>: the position of its first occurrence.\<close>

definition index_of :: "'a \<Rightarrow> 'a list \<Rightarrow> nat" where
  "index_of x xs = length (takeWhile (\<lambda>y. y \<noteq> x) xs)"

text \<open>
  \<open>re.match(r"^pmc:(.*)", stext)\<close>, line 287: the group is the text after the marker, up
  to the first line feed (a line of \<open>splitlines()\<close> has none).
\<close>

definition pmc_match :: "string \<Rightarrow> string option" where
  "pmc_match stext =
     (if take 4 stext = ''pmc:'' then Some (takeWhile (\<lambda>c. c \<noteq> CHR 0x0A) (drop 4 stext))
      else None)"

text \<open>
  \<open>re.match(r"[\s\S]+\[(\d+)\]", counter)\<close>, line 323. The first part is greedy and not
  empty, so the group is the digits of the last bracketed number that does not start the
  string. \<open>bracket_at\<close> matches \<open>\[(\d+)\]\<close> at the head of a string.
\<close>

definition isdigit :: "char \<Rightarrow> bool" where
  "isdigit c \<longleftrightarrow> CHR ''0'' \<le> c \<and> c \<le> CHR ''9''"

definition bracket_at :: "string \<Rightarrow> string option" where
  "bracket_at s =
     (case s of
        [] \<Rightarrow> None
      | c # r \<Rightarrow>
          if c = CHR ''['' \<and> takeWhile isdigit r \<noteq> [] \<and> take 1 (dropWhile isdigit r) = '']''
          then Some (takeWhile isdigit r)
          else None)"

fun last_bracket :: "string \<Rightarrow> string option" where
  "last_bracket [] = None"
| "last_bracket (c # cs) =
     (case last_bracket cs of Some ch \<Rightarrow> Some ch | None \<Rightarrow> bracket_at (c # cs))"

definition channel_match :: "string \<Rightarrow> string option" where
  "channel_match counter = (case counter of [] \<Rightarrow> None | c # cs \<Rightarrow> last_bracket cs)"

section \<open>\<open>perfmon_coalesce\<close>\<close>

text \<open>Lines 258 to 274: the empty buckets, with one sub-bucket per channel.\<close>

definition initial_buckets :: "nat \<Rightarrow> pmc_list" where
  "initial_buckets tcc_channels =
     \<lparr>blocks = [(''SQ'', []), (''GRBM'', []), (''TCP'', []), (''TA'', []), (''TD'', []),
                (''TCC'', []), (''SPI'', []), (''CPC'', []), (''CPF'', []), (''GDS'', [])],
      TCC2 = fold (\<lambda>ch d. AList.update (str_nat ch) [] d) [0..<tcc_channels] []\<rparr>"

text \<open>Lines 311 to 314: the block of a counter; SQC counters belong to SQ.\<close>

definition ip_block :: "string \<Rightarrow> string" where
  "ip_block counter =
     (let b = upper (takeWhile (\<lambda>c. c \<noteq> CHR ''_'') counter)
      in if b = ''SQC'' then ''SQ'' else b)"

text \<open>
  Lines 318, 319, 326 and 327: \<open>if counter not in pmc_list[IP_block]:
  pmc_list[IP_block].append(counter)\<close>. The value of the key TCC2 is a dictionary, which
  has no \<open>append\<close>; its keys are strings of digits, so a counter of block TCC2 is never
  among them.
\<close>

definition append_unique :: "pmc_list \<Rightarrow> string \<Rightarrow> string \<Rightarrow> error + pmc_list" where
  "append_unique pl key counter =
     (if key = ''TCC2'' then Inl AttributeError
      else case lookup (blocks pl) key of
             Inl e \<Rightarrow> Inl e
           | Inr b \<Rightarrow>
               if counter \<notin> set b
               then Inr (pl\<lparr>blocks := AList.update key (b @ [counter]) (blocks pl)\<rparr>)
               else Inr pl)"

text \<open>Lines 311 to 340: one counter enters its bucket.\<close>

definition add_counter :: "pmc_list \<Rightarrow> string \<Rightarrow> error + pmc_list" where
  "add_counter pl counter =
     (if ip_block counter \<noteq> ''TCC'' then append_unique pl (ip_block counter) counter
      else case channel_match counter of
             None \<Rightarrow> append_unique pl (ip_block counter) counter
           | Some ch \<Rightarrow>
               (case map_of (TCC2 pl) ch of
                  Some b \<Rightarrow>
                    if counter \<notin> set b
                    then Inr (pl\<lparr>TCC2 := AList.update ch (b @ [counter]) (TCC2 pl)\<rparr>)
                    else Inr pl
                | None \<Rightarrow> Inr (pl\<lparr>TCC2 := AList.update ch [counter] (TCC2 pl)\<rparr>)))"

text \<open>Line 310: \<open>for counter in counters\<close>.\<close>

fun add_counters :: "pmc_list \<Rightarrow> string list \<Rightarrow> error + pmc_list" where
  "add_counters pl [] = Inr pl"
| "add_counters pl (counter # counters) =
     (case add_counter pl counter of
        Inl e \<Rightarrow> Inl e
      | Inr pl' \<Rightarrow> add_counters pl' counters)"

text \<open>
  The files that the function writes: the path and the strings written to it, one per
  call of \<open>fd.write\<close>. Opening a path again replaces its content.

  The file system is a parameter of the model: \<open>open_w path\<close> is the exception that
  \<open>open(path, "w")\<close> and the writes that follow raise, if any, and \<open>None\<close> when the file
  is written. The path is built from a token of the input, so whether it can be opened
  depends on the input: a name with a slash needs a directory of that name, and a name
  can be too long.
\<close>

type_synonym file_system = "string \<Rightarrow> error option"

type_synonym files = "(string \<times> string list) list"

definition accum :: string where
  "accum = ''SQ_ACCUM_PREV_HIRES''"

text \<open>Lines 301 to 304: the text of a specification file that holds one line.\<close>

definition spec_file :: "string \<Rightarrow> string list" where
  "spec_file stext =
     [stext @ [CHR 0x0A, CHR 0x0A], ''gpu:'' @ [CHR 0x0A], ''range:'' @ [CHR 0x0A],
      ''kernel:'' @ [CHR 0x0A]]"

text \<open>Line 282: \<open>line.split("#")[0].strip()\<close>.\<close>

definition stext_of :: "string \<Rightarrow> string" where
  "stext_of line = strip (takeWhile (\<lambda>c. c \<noteq> CHR ''#'') line)"

text \<open>
  Lines 280 to 340: one line of a source. \<open>dir\<close> is \<open>workload_perfmon_dir\<close>. A line with
  the accumulator is written to a file of its own, named after the counter before the
  accumulator, and the loop continues with the next line; when the file cannot be
  opened, the exception of \<open>open\<close> leaves the function.
\<close>

definition process_line ::
  "file_system \<Rightarrow> string \<Rightarrow> pmc_list \<times> files \<Rightarrow> string \<Rightarrow> error + pmc_list \<times> files" where
  "process_line open_w dir st line =
     (let stext = stext_of line in
      if stext = [] then Inr st
      else case pmc_match stext of
             None \<Rightarrow> Inr st
           | Some g \<Rightarrow>
               (let counters = split_ws g in
                if accum \<in> set counters then
                  (case py_index counters (int (index_of accum counters) - 1) of
                     Inl e \<Rightarrow> Inl e
                   | Inr level_counter \<Rightarrow>
                       (case open_w (dir @ ''/'' @ level_counter @ ''.txt'') of
                          Some e \<Rightarrow> Inl e
                        | None \<Rightarrow>
                            Inr (fst st,
                                 AList.update (dir @ ''/'' @ level_counter @ ''.txt'')
                                   (spec_file stext) (snd st))))
                else
                  (case add_counters (fst st) counters of
                     Inl e \<Rightarrow> Inl e
                   | Inr pl \<Rightarrow> Inr (pl, snd st))))"

text \<open>Lines 277 to 280: the lines of all sources, in order.\<close>

fun process_lines ::
  "file_system \<Rightarrow> string \<Rightarrow> pmc_list \<times> files \<Rightarrow> string list \<Rightarrow> error + pmc_list \<times> files" where
  "process_lines open_w dir st [] = Inr st"
| "process_lines open_w dir st (line # lines) =
     (case process_line open_w dir st line of
        Inl e \<Rightarrow> Inl e
      | Inr st' \<Rightarrow> process_lines open_w dir st' lines)"

text \<open>Lines 343 and 344: the sub-buckets of the channels of the architecture are sorted.\<close>

fun sort_channels :: "(string \<times> string list) list \<Rightarrow> nat list \<Rightarrow> error + (string \<times> string list) list" where
  "sort_channels tcc2 [] = Inr tcc2"
| "sort_channels tcc2 (ch # chs) =
     (case lookup tcc2 (str_nat ch) of
        Inl e \<Rightarrow> Inl e
      | Inr b \<Rightarrow> sort_channels (AList.update (str_nat ch) (sort b) tcc2) chs)"

text \<open>
  \<open>perfmon_coalesce(pmc_files_list, workload_dir, soc)\<close>, on the file system \<open>open_w\<close>. A
  source is the list of the lines of its file, as \<open>read().splitlines()\<close> returns it. The
  result is the bucket structure and the files written.
\<close>

definition perfmon_coalesce ::
  "file_system \<Rightarrow> string list list \<Rightarrow> string \<Rightarrow> string \<Rightarrow> error + pmc_list \<times> files" where
  "perfmon_coalesce open_w pmc_files workload_dir soc =
     (case lookup perfmon_config soc of
        Inl e \<Rightarrow> Inl e
      | Inr cfg \<Rightarrow>
     (case lookup cfg ''TCC_channels'' of
        Inl e \<Rightarrow> Inl e
      | Inr tcc_channels \<Rightarrow>
     (case process_lines open_w (workload_dir @ ''/perfmon'') (initial_buckets tcc_channels, [])
             (concat pmc_files) of
        Inl e \<Rightarrow> Inl e
      | Inr st \<Rightarrow>
     (case sort_channels (TCC2 (fst st)) [0..<tcc_channels] of
        Inl e \<Rightarrow> Inl e
      | Inr tcc2 \<Rightarrow> Inr ((fst st)\<lparr>TCC2 := tcc2\<rparr>, snd st)))))"

section \<open>The quantities the specification names\<close>

text \<open>\<open>ceil(b / c)\<close> on natural numbers.\<close>

definition ceil_div :: "nat \<Rightarrow> nat \<Rightarrow> nat" where
  "ceil_div b c = (b + c - 1) div c"

text \<open>The ordinary blocks: the entries that the loops of \<open>perfmon_emit\<close> do not skip.\<close>

definition ordinary :: "pmc_list \<Rightarrow> (string \<times> string list) list" where
  "ordinary pl = filter (\<lambda>(key, b). key \<notin> {''TCC'', ''TCC2''}) (blocks pl)"

text \<open>The capacity of a block and the bucket of a key, where the key is present.\<close>

definition cap :: "(string \<times> nat) list \<Rightarrow> string \<Rightarrow> nat" where
  "cap cfg key = (case map_of cfg key of Some n \<Rightarrow> n | None \<Rightarrow> 0)"

definition bucket :: "(string \<times> string list) list \<Rightarrow> string \<Rightarrow> string list" where
  "bucket d key = (case map_of d key of Some b \<Rightarrow> b | None \<Rightarrow> [])"

text \<open>The sub-bucket of channel \<open>ch\<close>, and the slice a pass takes of it at index \<open>k\<close>.\<close>

definition channel :: "pmc_list \<Rightarrow> nat \<Rightarrow> string list" where
  "channel pl ch = bucket (TCC2 pl) (str_nat ch)"

definition channel_slice :: "(string \<times> nat) list \<Rightarrow> pmc_list \<Rightarrow> nat \<Rightarrow> nat \<Rightarrow> string list" where
  "channel_slice cfg pl k ch =
     slice (channel pl ch) (k * cap cfg ''TCC'') (k * cap cfg ''TCC'' + cap cfg ''TCC'')"

text \<open>
  The pass count of the specification: the largest \<open>ceil(size / capacity)\<close> of an ordinary
  block, against \<open>ceil(aggregated size / capacity)\<close> plus \<open>ceil(largest channel size /
  capacity)\<close> for TCC.
\<close>

definition pass_count :: "(string \<times> nat) list \<Rightarrow> pmc_list \<Rightarrow> nat" where
  "pass_count cfg pl =
     max (Max (set (map (\<lambda>(key, b). ceil_div (length b) (cap cfg key)) (ordinary pl))))
         (ceil_div (length (bucket (blocks pl) ''TCC'')) (cap cfg ''TCC'')
          + ceil_div (Max (set (map (\<lambda>ch. length (channel pl ch)) [0..<cap cfg ''TCC_channels''])))
              (cap cfg ''TCC''))"

text \<open>
  The bucket structures that \<open>perfmon_emit\<close> accepts: every key it reads is present, no
  divisor is zero and no maximum is taken of an empty sequence. \<open>niter_iff\<close> below shows
  that these are exactly the inputs on which the function does not raise.
\<close>

definition emit_ok :: "(string \<times> nat) list \<Rightarrow> pmc_list \<Rightarrow> bool" where
  "emit_ok cfg pl \<longleftrightarrow>
     ordinary pl \<noteq> []
     \<and> list_all (\<lambda>(key, b). map_of cfg key \<noteq> None \<and> 0 < cap cfg key) (ordinary pl)
     \<and> map_of cfg ''TCC_channels'' \<noteq> None \<and> 0 < cap cfg ''TCC_channels''
     \<and> map_of cfg ''TCC'' \<noteq> None \<and> 0 < cap cfg ''TCC''
     \<and> map_of (blocks pl) ''TCC'' \<noteq> None
     \<and> list_all (\<lambda>ch. map_of (TCC2 pl) (str_nat ch) \<noteq> None) [0..<cap cfg ''TCC_channels'']"

text \<open>The number of passes that take their TCC counters from the aggregated bucket.\<close>

definition tcc_passes :: "(string \<times> nat) list \<Rightarrow> pmc_list \<Rightarrow> nat" where
  "tcc_passes cfg pl = ceil_div (length (bucket (blocks pl) ''TCC'')) (cap cfg ''TCC'')"

text \<open>
  Pass \<open>iter\<close> in closed form: \<open>tcc2_index\<close> is \<open>iter - tcc_passes\<close> when the loop reaches
  an iteration whose aggregated slice is empty. \<open>emit_loop_closed\<close> proves that the loop
  computes it.
\<close>

definition pass_at :: "(string \<times> nat) list \<Rightarrow> pmc_list \<Rightarrow> nat \<Rightarrow> pass" where
  "pass_at cfg pl iter =
     \<lparr>ip = map (\<lambda>(key, b). (key, slice b (iter * cap cfg key) (iter * cap cfg key + cap cfg key)))
             (ordinary pl),
      tcc = (if iter < tcc_passes cfg pl
             then slice (bucket (blocks pl) ''TCC'') (iter * cap cfg ''TCC'')
                    (iter * cap cfg ''TCC'' + cap cfg ''TCC'')
             else concat (map (channel_slice cfg pl (iter - tcc_passes cfg pl))
                            [0..<cap cfg ''TCC_channels'']))\<rparr>"

text \<open>
  A bucket structure for the examples: ten SQ counters (capacity 8), one TA counter, one
  aggregated TCC counter and one counter on channel 3, on vega10.
\<close>

definition example_buckets :: pmc_list where
  "example_buckets =
     \<lparr>blocks = [(''SQ'', [''SQ_A'', ''SQ_B'', ''SQ_C'', ''SQ_D'', ''SQ_E'', ''SQ_F'', ''SQ_G'',
                          ''SQ_H'', ''SQ_I'', ''SQ_J'']),
                (''TA'', [''TA_A'']),
                (''TCC'', [''TCC_X''])],
      TCC2 = map (\<lambda>ch. (str_nat ch, if ch = 3 then [''TCC_Y[3]''] else [])) [0..<16]\<rparr>"

definition vega10 :: "(string \<times> nat) list" where
  "vega10 = [(''SQ'', 8), (''TA'', 2), (''TD'', 2), (''TCP'', 4), (''TCC'', 4), (''CPC'', 2),
        (''CPF'', 2), (''SPI'', 2), (''GRBM'', 2), (''GDS'', 4), (''TCC_channels'', 16)]"

definition example_passes :: "pass list" where
  "example_passes =
     [\<lparr>ip = [(''SQ'', [''SQ_A'', ''SQ_B'', ''SQ_C'', ''SQ_D'', ''SQ_E'', ''SQ_F'', ''SQ_G'', ''SQ_H'']),
             (''TA'', [''TA_A''])],
       tcc = [''TCC_X'']\<rparr>,
      \<lparr>ip = [(''SQ'', [''SQ_I'', ''SQ_J'']), (''TA'', [])],
       tcc = [''TCC_Y[3]'']\<rparr>]"

text \<open>
  Where a counter goes: the list-valued key of its block, or the sub-bucket of a
  channel. This is the case analysis of lines 311 to 331.
\<close>

datatype dest = Flat string | Chan string

definition dest_of :: "string \<Rightarrow> dest" where
  "dest_of counter =
     (if ip_block counter \<noteq> ''TCC'' then Flat (ip_block counter)
      else case channel_match counter of None \<Rightarrow> Flat ''TCC'' | Some ch \<Rightarrow> Chan ch)"

definition bucket_of :: "pmc_list \<Rightarrow> dest \<Rightarrow> string list" where
  "bucket_of pl d = (case d of Flat key \<Rightarrow> bucket (blocks pl) key | Chan ch \<Rightarrow> bucket (TCC2 pl) ch)"

text \<open>Order of first appearance: a value already present is not added again.\<close>

definition insert_unique :: "'a list \<Rightarrow> 'a \<Rightarrow> 'a list" where
  "insert_unique b x = (if x \<in> set b then b else b @ [x])"

definition first_seen :: "'a list \<Rightarrow> 'a list" where
  "first_seen xs = foldl insert_unique [] xs"

text \<open>
  The counters of a line that enter the buckets: the tokens of a line with the marker
  and without the accumulator. \<open>bucketed\<close> lists them over all sources.
\<close>

definition line_counters :: "string \<Rightarrow> string list" where
  "line_counters line =
     (case pmc_match (stext_of line) of
        None \<Rightarrow> []
      | Some g \<Rightarrow> if accum \<in> set (split_ws g) then [] else split_ws g)"

definition bucketed :: "string list list \<Rightarrow> string list" where
  "bucketed pmc_files = concat (map line_counters (concat pmc_files))"

text \<open>The keys of the sub-buckets that \<open>perfmon_coalesce\<close> sorts.\<close>

definition channel_keys :: "(string \<times> nat) list \<Rightarrow> string set" where
  "channel_keys cfg = str_nat ` {0..<cap cfg ''TCC_channels''}"

text \<open>The list-valued keys of the bucket dictionary.\<close>

definition block_names :: "string list" where
  "block_names = [''SQ'', ''GRBM'', ''TCP'', ''TA'', ''TD'', ''TCC'', ''SPI'', ''CPC'', ''CPF'', ''GDS'']"

text \<open>The counters that \<open>add_counter\<close> accepts: those of a block of the dictionary.\<close>

definition accepted :: "string \<Rightarrow> bool" where
  "accepted counter = (case dest_of counter of Flat key \<Rightarrow> key \<in> set block_names | Chan ch \<Rightarrow> True)"

text \<open>
  The name of a per-channel counter without its channel: the text before the first
  bracket. \<open>channel_counter name ch\<close> is the counter of that name on channel \<open>ch\<close>.
\<close>

definition counter_name :: "string \<Rightarrow> string" where
  "counter_name counter = takeWhile (\<lambda>c. c \<noteq> CHR ''['') counter"

definition channel_counter :: "nat \<Rightarrow> string \<Rightarrow> string" where
  "channel_counter ch name = name @ ''['' @ str_nat ch @ '']''"

text \<open>
  A file system for the examples: the directory \<open>dir\<close> exists, can be written to and has
  no subdirectory, and a file name has at most 255 characters.
\<close>

definition plain_dir :: "string \<Rightarrow> file_system" where
  "plain_dir dir path =
     (let name = drop (length dir + 1) path
      in if take (length dir + 1) path = dir @ ''/'' \<and> name \<noteq> [] \<and> CHR ''/'' \<notin> set name
            \<and> length name \<le> 255
         then None else Some OSError)"

text \<open>
  Two sources for the examples, and what \<open>perfmon_coalesce\<close> returns on them for vega10:
  \<open>SQ_WAVES\<close> and \<open>TCC_B[0]\<close> occur in both sources, channel 99 is not a channel of the
  architecture, and one line holds the accumulator.
\<close>

definition example_sources :: "string list list" where
  "example_sources =
     [[''pmc: SQ_WAVES TCC_B[0] sqc_x SQ_WAVES'', ''# comment'', ''pmc:'', ''gpu:'',
       ''pmc: TCC_HIT TCC_A[0] TCC_Z[99] TCC_A[99]  # per channel''],
      [''pmc: SQ_X SQ_LEVEL SQ_ACCUM_PREV_HIRES'', ''pmc: TCC_B[0] SQ_WAVES'']]"

definition example_coalesced :: pmc_list where
  "example_coalesced =
     \<lparr>blocks = [(''SQ'', [''SQ_WAVES'', ''sqc_x'']), (''GRBM'', []), (''TCP'', []), (''TA'', []),
                (''TD'', []), (''TCC'', [''TCC_HIT'']), (''SPI'', []), (''CPC'', []),
                (''CPF'', []), (''GDS'', [])],
      TCC2 = [(''0'', [''TCC_A[0]'', ''TCC_B[0]'']), (''1'', []), (''2'', []), (''3'', []),
              (''4'', []), (''5'', []), (''6'', []), (''7'', []), (''8'', []), (''9'', []),
              (''10'', []), (''11'', []), (''12'', []), (''13'', []), (''14'', []), (''15'', []),
              (''99'', [''TCC_Z[99]'', ''TCC_A[99]''])]\<rparr>"

definition example_files :: files where
  "example_files =
     [(''wd/perfmon/SQ_LEVEL.txt'',
       [''pmc: SQ_X SQ_LEVEL SQ_ACCUM_PREV_HIRES'' @ [CHR 0x0A, CHR 0x0A], ''gpu:'' @ [CHR 0x0A],
        ''range:'' @ [CHR 0x0A], ''kernel:'' @ [CHR 0x0A]])]"

text \<open>
  A source for the examples in which the channels 0 and 1 hold the same two names,
  listed in a different order, and what \<open>perfmon_coalesce\<close> returns on it for vega10.
\<close>

definition aligned_sources :: "string list list" where
  "aligned_sources = [[''pmc: TCC_B[0] TCC_A[1] TCC_A[0] TCC_B[1] # same names'']]"

definition aligned_coalesced :: pmc_list where
  "aligned_coalesced =
     \<lparr>blocks = [(''SQ'', []), (''GRBM'', []), (''TCP'', []), (''TA'', []), (''TD'', []),
                (''TCC'', []), (''SPI'', []), (''CPC'', []), (''CPF'', []), (''GDS'', [])],
      TCC2 = [(''0'', [''TCC_A[0]'', ''TCC_B[0]'']), (''1'', [''TCC_A[1]'', ''TCC_B[1]'']),
              (''2'', []), (''3'', []), (''4'', []), (''5'', []), (''6'', []), (''7'', []),
              (''8'', []), (''9'', []), (''10'', []), (''11'', []), (''12'', []), (''13'', []),
              (''14'', []), (''15'', [])]\<rparr>"

section \<open>Arithmetic of the pass count\<close>

lemma ceil_div_rat:
  assumes c: "c > 0"
  shows "\<lceil>of_nat a / (of_nat c :: rat)\<rceil> = int (ceil_div a c)"
proof (rule ceiling_unique)
  define q where "q = (a + c - 1) div c"
  have r: "(a + c - 1) mod c < c" using c by simp
  have e: "q * c + (a + c - 1) mod c = a + c - 1"
    by (simp add: q_def)
  have 1: "a \<le> q * c" using r e c by arith
  have 2: "q * c < a + c" using e c by arith
  have cq: "ceil_div a c = q" by (simp add: ceil_div_def q_def)
  have cpos: "(0::rat) < of_nat c" using c by simp
  have "(of_nat (q * c) :: rat) < of_nat (a + c)" using 2 by (simp only: of_nat_less_iff)
  then have "(of_nat q - 1) * (of_nat c :: rat) < of_nat a"
    by (simp add: algebra_simps)
  then show "of_int (int (ceil_div a c)) - 1 < (of_nat a / of_nat c :: rat)"
    using cpos by (simp add: cq pos_less_divide_eq)
  have "(of_nat a :: rat) \<le> of_nat (q * c)" using 1 by (simp only: of_nat_le_iff)
  then show "(of_nat a / of_nat c :: rat) \<le> of_int (int (ceil_div a c))"
    using cpos by (simp add: cq pos_divide_le_eq)
qed


lemma ceil_div_less_iff:
  assumes c: "0 < c"
  shows "i < ceil_div b c \<longleftrightarrow> i * c < b"
proof -
  define q where "q = (b + c - 1) div c"
  have r: "(b + c - 1) mod c < c" using c by simp
  have e: "q * c + (b + c - 1) mod c = b + c - 1"
    by (simp add: q_def)
  have 1: "b \<le> q * c" using r e c by arith
  have 2: "q * c < b + c" using e c by arith
  show ?thesis
  proof
    assume "i < ceil_div b c"
    then have "i + 1 \<le> q" by (simp add: ceil_div_def q_def)
    then have "(i + 1) * c \<le> q * c" by (rule mult_le_mono1)
    then show "i * c < b" using 2 by simp
  next
    assume "i * c < b"
    then have "i * c < q * c" using 1 by (rule less_le_trans)
    then have "i < q" by (simp only: mult_less_cancel2)
    then show "i < ceil_div b c" by (simp add: ceil_div_def q_def)
  qed
qed

lemma py_max_Max: "xs \<noteq> [] \<Longrightarrow> py_max xs = Inr (Max (set xs))"
proof (cases xs)
  case Nil
  assume "xs \<noteq> []"
  with Nil show ?thesis by simp
next
  case (Cons a list)
  show ?thesis using Max.set_eq_fold [of a list] by (simp add: Cons)
qed

lemma py_max_nonempty: "py_max xs = Inr m \<Longrightarrow> xs \<noteq> []"
  by (cases xs) simp_all

lemma ceiling_Max:
  fixes S :: "rat set"
  assumes "finite S" "S \<noteq> {}"
  shows "\<lceil>Max S\<rceil> = Max (ceiling ` S)"
  using assms by (simp add: mono_Max_commute [of ceiling] mono_def ceiling_mono)

lemma slice_length: "length (slice xs a b) \<le> b - a"
  by (simp add: slice_def)

lemma lookup_Inr: "lookup d k = Inr v \<longleftrightarrow> map_of d k = Some v"
  by (simp add: lookup_def split: option.splits)

lemma pmc_cnt_Inr:
  "pmc_cnt cfg bs = Inr cnts \<Longrightarrow>
     cnts = map (\<lambda>(key, b). of_nat (length b) / of_nat (cap cfg key))
              (filter (\<lambda>(key, b). key \<notin> {''TCC'', ''TCC2''}) bs)
     \<and> list_all (\<lambda>(key, b). map_of cfg key \<noteq> None \<and> 0 < cap cfg key)
              (filter (\<lambda>(key, b). key \<notin> {''TCC'', ''TCC2''}) bs)"
proof (induction bs arbitrary: cnts)
  case Nil
  then show ?case by simp
next
  case (Cons kb bs)
  obtain key b where kb: "kb = (key, b)" by (cases kb)
  show ?case
  proof (cases "key \<notin> {''TCC'', ''TCC2''}")
    case True
    with Cons.prems kb obtain N cs where
      N: "lookup cfg key = Inr N" "N \<noteq> 0" and cs: "pmc_cnt cfg bs = Inr cs"
      and cnts: "cnts = of_nat (length b) / of_nat N # cs"
      by (auto split: sum.splits if_splits)
    from N have c: "map_of cfg key = Some N" "cap cfg key = N"
      by (simp_all add: lookup_Inr cap_def)
    from Cons.IH [OF cs] c N cnts True kb show ?thesis by simp
  next
    case False
    with Cons.prems kb have "pmc_cnt cfg bs = Inr cnts" by auto
    from Cons.IH [OF this] False kb show ?thesis by auto
  qed
qed

lemma ip_slices_closed:
  "list_all (\<lambda>(key, b). map_of cfg key \<noteq> None \<and> 0 < cap cfg key)
              (filter (\<lambda>(key, b). key \<notin> {''TCC'', ''TCC2''}) bs) \<Longrightarrow>
   ip_slices cfg bs iter =
     Inr (map (\<lambda>(key, b). (key, slice b (iter * cap cfg key) (iter * cap cfg key + cap cfg key)))
            (filter (\<lambda>(key, b). key \<notin> {''TCC'', ''TCC2''}) bs))"
proof (induction bs)
  case Nil
  then show ?case by simp
next
  case (Cons kb bs)
  obtain key b where kb: "kb = (key, b)" by (cases kb)
  show ?case
  proof (cases "key \<notin> {''TCC'', ''TCC2''}")
    case True
    with Cons.prems kb obtain N where N: "map_of cfg key = Some N"
      and rest: "list_all (\<lambda>(key, b). map_of cfg key \<noteq> None \<and> 0 < cap cfg key)
              (filter (\<lambda>(key, b). key \<notin> {''TCC'', ''TCC2''}) bs)"
      by auto
    from N have c: "lookup cfg key = Inr N" "cap cfg key = N"
      by (simp_all add: lookup_Inr cap_def)
    from Cons.IH [OF rest] c True kb show ?thesis by simp
  next
    case False
    with Cons.prems kb have "list_all (\<lambda>(key, b). map_of cfg key \<noteq> None \<and> 0 < cap cfg key)
              (filter (\<lambda>(key, b). key \<notin> {''TCC'', ''TCC2''}) bs)" by auto
    from Cons.IH [OF this] False kb show ?thesis by auto
  qed
qed

lemma tcc2_lens_Inr:
  "tcc2_lens tcc2 chs = Inr ls \<Longrightarrow>
     ls = map (\<lambda>ch. length (bucket tcc2 (str_nat ch))) chs
     \<and> list_all (\<lambda>ch. map_of tcc2 (str_nat ch) \<noteq> None) chs"
proof (induction chs arbitrary: ls)
  case Nil
  then show ?case by simp
next
  case (Cons ch chs)
  from Cons.prems obtain b ls' where b: "lookup tcc2 (str_nat ch) = Inr b"
    and ls': "tcc2_lens tcc2 chs = Inr ls'" and ls: "ls = length b # ls'"
    by (auto split: sum.splits)
  from b have "map_of tcc2 (str_nat ch) = Some b" "bucket tcc2 (str_nat ch) = b"
    by (simp_all add: lookup_Inr bucket_def)
  with Cons.IH [OF ls'] ls show ?case by simp
qed

lemma tcc2_slices_closed:
  "list_all (\<lambda>ch. map_of tcc2 (str_nat ch) \<noteq> None) chs \<Longrightarrow>
   tcc2_slices tcc2 chs k N =
     Inr (concat (map (\<lambda>ch. slice (bucket tcc2 (str_nat ch)) (k * N) (k * N + N)) chs))"
proof (induction chs)
  case Nil
  then show ?case by simp
next
  case (Cons ch chs)
  from Cons.prems obtain b where b: "map_of tcc2 (str_nat ch) = Some b"
    and rest: "list_all (\<lambda>ch. map_of tcc2 (str_nat ch) \<noteq> None) chs"
    by auto
  from b have "lookup tcc2 (str_nat ch) = Inr b" "bucket tcc2 (str_nat ch) = b"
    by (simp_all add: lookup_Inr bucket_def)
  with Cons.IH [OF rest] show ?case by simp
qed

lemma lookup_cap: "map_of cfg key \<noteq> None \<Longrightarrow> lookup cfg key = Inr (cap cfg key)"
  by (auto simp: lookup_def cap_def)

lemma lookup_bucket: "map_of d key \<noteq> None \<Longrightarrow> lookup d key = Inr (bucket d key)"
  by (auto simp: lookup_def bucket_def)

lemma lookup_Inr_cap: "lookup cfg key = Inr N \<Longrightarrow> map_of cfg key \<noteq> None \<and> cap cfg key = N"
  by (auto simp: lookup_def cap_def split: option.splits)

lemma lookup_Inr_bucket: "lookup d key = Inr b \<Longrightarrow> map_of d key \<noteq> None \<and> bucket d key = b"
  by (auto simp: lookup_def bucket_def split: option.splits)

lemma Max_map_cong:
  "(\<And>x. x \<in> set xs \<Longrightarrow> f x = g x) \<Longrightarrow> Max (set (map f xs)) = Max (set (map g xs))"
  by (simp cong: image_cong)

lemma Max_ceil_ordinary:
  assumes ne: "bs \<noteq> []"
    and pos: "list_all (\<lambda>(key, b). map_of cfg key \<noteq> None \<and> 0 < cap cfg key) bs"
  shows "\<lceil>Max (set (map (\<lambda>(key, b). of_nat (length b) / (of_nat (cap cfg key) :: rat)) bs))\<rceil>
         = int (Max (set (map (\<lambda>(key, b). ceil_div (length b) (cap cfg key)) bs)))"
proof -
  let ?f = "\<lambda>(key, b). of_nat (length b) / (of_nat (cap cfg key) :: rat)"
  let ?g = "\<lambda>(key, b). ceil_div (length b) (cap cfg key)"
  have fin: "finite (set (map ?f bs))" "set (map ?f bs) \<noteq> {}" using ne by simp_all
  have fin2: "finite (set (map ?g bs))" "set (map ?g bs) \<noteq> {}" using ne by simp_all
  have "\<lceil>Max (set (map ?f bs))\<rceil> = Max (ceiling ` set (map ?f bs))"
    by (rule ceiling_Max [OF fin])
  also have "ceiling ` set (map ?f bs) = set (map (\<lambda>kb. \<lceil>?f kb\<rceil>) bs)"
    by (simp add: image_image)
  also have "Max (set (map (\<lambda>kb. \<lceil>?f kb\<rceil>) bs)) = Max (set (map (\<lambda>kb. int (?g kb)) bs))"
  proof (rule Max_map_cong)
    fix x assume x: "x \<in> set bs"
    obtain key b where kb: "x = (key, b)" by (cases x)
    from pos x kb have "0 < cap cfg key" by (auto simp: list_all_iff)
    then show "\<lceil>?f x\<rceil> = int (?g x)" by (simp add: kb ceil_div_rat)
  qed
  also have "set (map (\<lambda>kb. int (?g kb)) bs) = int ` set (map ?g bs)"
    by (simp add: image_image)
  also have "Max (int ` set (map ?g bs)) = int (Max (set (map ?g bs)))"
    by (rule mono_Max_commute [symmetric, OF _ fin2]) (simp add: mono_def)
  finally show ?thesis .
qed

lemma Max_ceil_channels:
  assumes ne: "ls \<noteq> []" and N: "0 < N"
  shows "\<lceil>Max (set (map (\<lambda>l. of_nat l / (of_nat N :: rat)) ls))\<rceil> = int (ceil_div (Max (set ls)) N)"
proof -
  have fin: "finite (set ls)" "set ls \<noteq> {}" using ne by simp_all
  have mono: "mono (\<lambda>l. of_nat l / (of_nat N :: rat))"
    using N by (simp add: mono_def divide_right_mono)
  have "Max (set (map (\<lambda>l. of_nat l / (of_nat N :: rat)) ls)) = Max ((\<lambda>l. of_nat l / (of_nat N :: rat)) ` set ls)"
    by simp
  also have "\<dots> = of_nat (Max (set ls)) / of_nat N"
    by (rule mono_Max_commute [symmetric, OF mono fin])
  finally show ?thesis using N by (simp add: ceil_div_rat)
qed

lemma niter_Inr:
  assumes r: "niter cfg pl = Inr n"
  shows "emit_ok cfg pl \<and> n = int (pass_count cfg pl)"
proof -
  from r obtain cnts tcc_channels tccb N lens m m2 where
    1: "pmc_cnt cfg (blocks pl) = Inr cnts"
    and 2: "lookup cfg ''TCC_channels'' = Inr tcc_channels"
    and 3: "lookup (blocks pl) ''TCC'' = Inr tccb"
    and 4: "lookup cfg ''TCC'' = Inr N" "N \<noteq> 0"
    and 5: "tcc2_lens (TCC2 pl) [0..<tcc_channels] = Inr lens"
    and 6: "py_max cnts = Inr m"
    and 7: "py_max (map (\<lambda>l. of_nat l / of_nat N) lens) = Inr m2"
    and n: "n = max \<lceil>m\<rceil> (\<lceil>of_nat (length tccb) / (of_nat N :: rat)\<rceil> + \<lceil>m2\<rceil>)"
    unfolding niter_def by (auto split: sum.splits if_splits)
  note a = pmc_cnt_Inr [OF 1, folded ordinary_def]
  note b = lookup_Inr_cap [OF 2]
  note c = lookup_Inr_bucket [OF 3]
  note d = lookup_Inr_cap [OF 4(1)]
  note e = tcc2_lens_Inr [OF 5]
  have cne: "cnts \<noteq> []" using 6 by (rule py_max_nonempty)
  then have one: "ordinary pl \<noteq> []" using a by auto
  have "map (\<lambda>l. of_nat l / (of_nat N :: rat)) lens \<noteq> []" using 7 by (rule py_max_nonempty)
  then have lne: "lens \<noteq> []" by simp
  then have chpos: "0 < tcc_channels" using e by auto
  have ok: "emit_ok cfg pl"
    unfolding emit_ok_def using one a b c d e chpos 4(2) by simp
  have m: "m = Max (set cnts)" using 6 py_max_Max [OF cne] by simp
  have m2: "m2 = Max (set (map (\<lambda>l. of_nat l / (of_nat N :: rat)) lens))"
    using 7 py_max_Max [of "map (\<lambda>l. of_nat l / (of_nat N :: rat)) lens"] lne by simp
  have cm: "\<lceil>m\<rceil> = int (Max (set (map (\<lambda>(key, b). ceil_div (length b) (cap cfg key)) (ordinary pl))))"
    unfolding m using a Max_ceil_ordinary [OF one, of cfg] by simp
  have cm2: "\<lceil>m2\<rceil> = int (ceil_div (Max (set lens)) N)"
    unfolding m2 using Max_ceil_channels [OF lne] 4(2) by simp
  have ct: "\<lceil>of_nat (length tccb) / (of_nat N :: rat)\<rceil> = int (ceil_div (length tccb) N)"
    using 4(2) by (simp add: ceil_div_rat)
  have "n = int (pass_count cfg pl)"
    unfolding n cm cm2 ct pass_count_def channel_def using b c d e by simp
  with ok show ?thesis ..
qed

lemma pmc_cnt_closed:
  "list_all (\<lambda>(key, b). map_of cfg key \<noteq> None \<and> 0 < cap cfg key)
              (filter (\<lambda>(key, b). key \<notin> {''TCC'', ''TCC2''}) bs) \<Longrightarrow>
   pmc_cnt cfg bs =
     Inr (map (\<lambda>(key, b). of_nat (length b) / of_nat (cap cfg key))
            (filter (\<lambda>(key, b). key \<notin> {''TCC'', ''TCC2''}) bs))"
proof (induction bs)
  case Nil
  then show ?case by simp
next
  case (Cons kb bs)
  obtain key b where kb: "kb = (key, b)" by (cases kb)
  show ?case
  proof (cases "key \<notin> {''TCC'', ''TCC2''}")
    case True
    with Cons.prems kb have N: "map_of cfg key \<noteq> None" "0 < cap cfg key"
      and rest: "list_all (\<lambda>(key, b). map_of cfg key \<noteq> None \<and> 0 < cap cfg key)
              (filter (\<lambda>(key, b). key \<notin> {''TCC'', ''TCC2''}) bs)"
      by auto
    from Cons.IH [OF rest] lookup_cap [OF N(1)] N(2) True kb show ?thesis by simp
  next
    case False
    with Cons.prems kb have "list_all (\<lambda>(key, b). map_of cfg key \<noteq> None \<and> 0 < cap cfg key)
              (filter (\<lambda>(key, b). key \<notin> {''TCC'', ''TCC2''}) bs)" by auto
    from Cons.IH [OF this] False kb show ?thesis by auto
  qed
qed

lemma tcc2_lens_closed:
  "list_all (\<lambda>ch. map_of tcc2 (str_nat ch) \<noteq> None) chs \<Longrightarrow>
   tcc2_lens tcc2 chs = Inr (map (\<lambda>ch. length (bucket tcc2 (str_nat ch))) chs)"
proof (induction chs)
  case Nil
  then show ?case by simp
next
  case (Cons ch chs)
  from Cons.prems have b: "map_of tcc2 (str_nat ch) \<noteq> None"
    and rest: "list_all (\<lambda>ch. map_of tcc2 (str_nat ch) \<noteq> None) chs"
    by auto
  from Cons.IH [OF rest] lookup_bucket [OF b] show ?case by simp
qed

lemma niter_total:
  assumes ok: "emit_ok cfg pl"
  shows "niter cfg pl = Inr (int (pass_count cfg pl))"
proof -
  from ok have one: "ordinary pl \<noteq> []"
    and ord: "list_all (\<lambda>(key, b). map_of cfg key \<noteq> None \<and> 0 < cap cfg key) (ordinary pl)"
    and ch: "map_of cfg ''TCC_channels'' \<noteq> None" "0 < cap cfg ''TCC_channels''"
    and N: "map_of cfg ''TCC'' \<noteq> None" "0 < cap cfg ''TCC''"
    and tcc: "map_of (blocks pl) ''TCC'' \<noteq> None"
    and chs: "list_all (\<lambda>ch. map_of (TCC2 pl) (str_nat ch) \<noteq> None) [0..<cap cfg ''TCC_channels'']"
    by (simp_all add: emit_ok_def)
  let ?cnts = "map (\<lambda>(key, b). of_nat (length b) / (of_nat (cap cfg key) :: rat)) (ordinary pl)"
  let ?l2 = "map (\<lambda>l. of_nat l / (of_nat (cap cfg ''TCC'') :: rat))
               (map (\<lambda>ch. length (bucket (TCC2 pl) (str_nat ch))) [0..<cap cfg ''TCC_channels''])"
  have 1: "pmc_cnt cfg (blocks pl) = Inr ?cnts"
    using pmc_cnt_closed [of cfg "blocks pl"] ord by (simp add: ordinary_def)
  have 6: "py_max ?cnts = Inr (Max (set ?cnts))"
    using one by (intro py_max_Max) simp
  have 7: "py_max ?l2 = Inr (Max (set ?l2))"
    using ch(2) by (intro py_max_Max) simp
  have "\<exists>n. niter cfg pl = Inr n"
    unfolding niter_def
    using 1 lookup_cap [OF ch(1)] lookup_bucket [OF tcc] lookup_cap [OF N(1)] N(2)
      tcc2_lens_closed [OF chs] 6 7
    by simp
  then obtain n where n: "niter cfg pl = Inr n" ..
  from niter_Inr [OF n] n show ?thesis by simp
qed

lemma niter_iff:
  "niter cfg pl = Inr n \<longleftrightarrow> emit_ok cfg pl \<and> n = int (pass_count cfg pl)"
  using niter_Inr [of cfg pl n] niter_total [of cfg pl] by auto

lemma slice_empty_iff: "slice xs a b = [] \<longleftrightarrow> length xs \<le> a \<or> b \<le> a"
  by (auto simp: slice_def)

lemma tcc_slice_empty:
  assumes N: "0 < N"
  shows "slice xs (i * N) (i * N + N) = [] \<longleftrightarrow> \<not> i < ceil_div (length xs) N"
  using N by (simp add: slice_empty_iff ceil_div_less_iff not_less)

lemma emit_loop_closed:
  assumes ok: "emit_ok cfg pl"
  shows "emit_loop cfg pl [i..<j] (i - tcc_passes cfg pl) = Inr (map (pass_at cfg pl) [i..<j])"
proof (induction "j - i" arbitrary: i)
  case 0
  then show ?case by simp
next
  case (Suc d)
  from Suc.hyps(2) have ij: "i < j" and d: "d = j - Suc i" by simp_all
  from ok have ord: "list_all (\<lambda>(key, b). map_of cfg key \<noteq> None \<and> 0 < cap cfg key) (ordinary pl)"
    and ch: "map_of cfg ''TCC_channels'' \<noteq> None"
    and N: "map_of cfg ''TCC'' \<noteq> None" "0 < cap cfg ''TCC''"
    and tcc: "map_of (blocks pl) ''TCC'' \<noteq> None"
    and chs: "list_all (\<lambda>ch. map_of (TCC2 pl) (str_nat ch) \<noteq> None) [0..<cap cfg ''TCC_channels'']"
    by (simp_all add: emit_ok_def)
  have ips: "ip_slices cfg (blocks pl) i = Inr (ip (pass_at cfg pl i))"
    using ip_slices_closed [of cfg "blocks pl" i] ord by (simp add: ordinary_def pass_at_def)
  note IH = Suc.hyps(1) [OF d]
  have up: "[i..<j] = i # [Suc i..<j]" using ij by (rule upt_conv_Cons)
  show ?case
  proof (cases "i < tcc_passes cfg pl")
    case True
    then have ne: "slice (bucket (blocks pl) ''TCC'') (i * cap cfg ''TCC'') (i * cap cfg ''TCC'' + cap cfg ''TCC'') \<noteq> []"
      by (simp add: tcc_passes_def tcc_slice_empty [OF N(2)])
    from True have idx: "Suc i - tcc_passes cfg pl = i - tcc_passes cfg pl" by simp
    show ?thesis
      unfolding up using ips lookup_cap [OF N(1)] lookup_bucket [OF tcc] ne IH True
      by (simp add: idx pass_at_def)
  next
    case False
    then have e: "slice (bucket (blocks pl) ''TCC'') (i * cap cfg ''TCC'') (i * cap cfg ''TCC'' + cap cfg ''TCC'') = []"
      by (simp add: tcc_passes_def tcc_slice_empty [OF N(2)])
    from False have idx: "Suc i - tcc_passes cfg pl = Suc (i - tcc_passes cfg pl)" by simp
    show ?thesis
      unfolding up using ips lookup_cap [OF N(1)] lookup_bucket [OF tcc] e IH False
        lookup_cap [OF ch] tcc2_slices_closed [OF chs]
      by (simp add: idx pass_at_def channel_slice_def [abs_def] channel_def)
  qed
qed

lemma perfmon_passes_iff:
  "perfmon_passes pl soc = Inr ps \<longleftrightarrow>
     (\<exists>cfg. map_of perfmon_config soc = Some cfg \<and> emit_ok cfg pl
        \<and> ps = map (pass_at cfg pl) [0..<pass_count cfg pl])"
proof -
  show ?thesis
  proof (cases "map_of perfmon_config soc")
    case None
    then show ?thesis by (simp add: perfmon_passes_def lookup_def)
  next
    case (Some cfg)
    show ?thesis
    proof (cases "emit_ok cfg pl")
      case True
      from emit_loop_closed [OF True, of 0 "pass_count cfg pl"] niter_total [OF True] Some True
      show ?thesis by (auto simp: perfmon_passes_def lookup_def)
    next
      case False
      then have "\<And>n. niter cfg pl \<noteq> Inr n" by (simp add: niter_iff)
      with Some False show ?thesis
        by (auto simp: perfmon_passes_def lookup_def split: sum.splits)
    qed
  qed
qed









lemma vega10_config: "map_of perfmon_config ''vega10'' = Some vega10"
  by (simp add: perfmon_config_def vega10_def)

lemma example_emit_ok: "emit_ok vega10 example_buckets"
  by code_simp

lemma example_run: "perfmon_passes example_buckets ''vega10'' = Inr example_passes"
  by code_simp

lemma example_pass_count: "pass_count vega10 example_buckets = 2"
  by code_simp

lemma example_tcc_passes: "tcc_passes vega10 example_buckets = 1"
  by code_simp

section \<open>One line of a source\<close>

lemma index_of_less: "x \<in> set xs \<Longrightarrow> index_of x xs < length xs"
  unfolding index_of_def by (induction xs) auto

lemma index_of_hd: "index_of x (x # xs) = 0"
  by (simp add: index_of_def)

lemma py_index_before:
  assumes "x \<in> set xs"
  shows "py_index xs (int (index_of x xs) - 1)
         = Inr (if index_of x xs = 0 then last xs else xs ! (index_of x xs - 1))"
proof -
  from assms have l: "index_of x xs < length xs" by (rule index_of_less)
  then have ne: "xs \<noteq> []" by auto
  show ?thesis
  proof (cases "index_of x xs = 0")
    case True
    from ne have "0 < length xs" by simp
    then have "Suc 0 \<le> length xs" by (rule Suc_leI)
    then have "Suc 0 \<le> length xs" "nat (int (length xs) - 1) = length xs - 1" by simp_all
    with True ne show ?thesis
      by (simp add: py_index_def last_conv_nth)
  next
    case False
    then have "nat (int (index_of x xs) - 1) = index_of x xs - 1" by simp
    with False l show ?thesis by (simp add: py_index_def)
  qed
qed

lemma pmc_match_nonempty: "pmc_match s = Some g \<Longrightarrow> s \<noteq> []"
  by (auto simp: pmc_match_def split: if_splits)

lemma process_line_accum:
  assumes m: "pmc_match (stext_of line) = Some g"
    and a: "accum \<in> set (split_ws g)"
  shows "process_line open_w dir st line
         = (let path = dir @ ''/''
                  @ (if index_of accum (split_ws g) = 0 then last (split_ws g)
                     else split_ws g ! (index_of accum (split_ws g) - 1))
                  @ ''.txt''
            in case open_w path of
                 Some e \<Rightarrow> Inl e
               | None \<Rightarrow> Inr (fst st, AList.update path (spec_file (stext_of line)) (snd st)))"
  using pmc_match_nonempty [OF m] m a
  by (simp add: process_line_def Let_def py_index_before [OF a] split: option.split)

lemma add_counter_error: "add_counter pl c = Inl e \<Longrightarrow> e = KeyError \<or> e = AttributeError"
  by (auto simp: add_counter_def append_unique_def lookup_def split: if_splits option.splits)

lemma add_counters_error: "add_counters pl cs = Inl e \<Longrightarrow> e = KeyError \<or> e = AttributeError"
proof (induction cs arbitrary: pl)
  case Nil
  then show ?case by simp
next
  case (Cons c cs)
  then show ?case by (auto split: sum.splits dest: add_counter_error)
qed

section \<open>The buckets after coalescing\<close>

lemma bucket_update: "bucket (AList.update k v d) k' = (if k' = k then v else bucket d k')"
  by (simp add: bucket_def update_conv')

lemma lookup_Inr_bucket': "lookup d k = Inr b \<Longrightarrow> bucket d k = b"
  by (simp add: lookup_Inr_bucket)

lemma bucket_Some: "map_of d k = Some b \<Longrightarrow> bucket d k = b"
  by (simp add: bucket_def)

lemma bucket_None: "map_of d k = None \<Longrightarrow> bucket d k = []"
  by (simp add: bucket_def)

lemma append_unique_bucket:
  assumes a: "append_unique pl key c = Inr pl'"
  shows "bucket (blocks pl') k = (if k = key then insert_unique (bucket (blocks pl) k) c else bucket (blocks pl) k)"
    and "TCC2 pl' = TCC2 pl"
    and "map_of (blocks pl) key \<noteq> None" and "key \<noteq> ''TCC2''"
    and "map fst (blocks pl') = map fst (blocks pl)"
proof -
  from a have k: "key \<noteq> ''TCC2''" by (auto simp: append_unique_def split: if_splits)
  with a obtain b where b: "lookup (blocks pl) key = Inr b"
    and pl': "pl' = (if c \<notin> set b then pl\<lparr>blocks := AList.update key (b @ [c]) (blocks pl)\<rparr> else pl)"
    by (auto simp: append_unique_def split: if_splits sum.splits)
  note bb = lookup_Inr_bucket [OF b]
  from bb have dom: "key \<in> fst ` set (blocks pl)" by (simp add: map_of_eq_None_iff)
  show "bucket (blocks pl') k = (if k = key then insert_unique (bucket (blocks pl) k) c else bucket (blocks pl) k)"
    using bb by (simp add: pl' insert_unique_def bucket_update)
  show "TCC2 pl' = TCC2 pl" by (simp add: pl')
  show "map_of (blocks pl) key \<noteq> None" using bb by simp
  show "key \<noteq> ''TCC2''" by (rule k)
  show "map fst (blocks pl') = map fst (blocks pl)"
    using dom by (simp add: pl' update_keys)
qed

lemma add_counter_bucket:
  assumes "add_counter pl c = Inr pl'"
  shows "bucket_of pl' d = (if dest_of c = d then insert_unique (bucket_of pl d) c else bucket_of pl d)"
proof (cases "dest_of c")
  case (Flat key)
  then have "append_unique pl key c = Inr pl'"
    using assms by (auto simp: add_counter_def dest_of_def split: if_splits option.splits)
  from append_unique_bucket(1,2) [OF this] Flat show ?thesis
    by (cases d) (auto simp: bucket_of_def)
next
  case (Chan ch)
  then have m: "ip_block c = ''TCC''" "channel_match c = Some ch"
    by (auto simp: dest_of_def split: if_splits option.splits)
  have bl: "blocks pl' = blocks pl"
    using assms m by (auto simp: add_counter_def split: option.splits if_splits)
  have t: "bucket (TCC2 pl') k = (if k = ch then insert_unique (bucket (TCC2 pl) k) c else bucket (TCC2 pl) k)" for k
  proof (cases "map_of (TCC2 pl) ch")
    case None
    with assms m have "pl' = pl\<lparr>TCC2 := AList.update ch [c] (TCC2 pl)\<rparr>"
      by (simp add: add_counter_def)
    with bucket_None [OF None] show ?thesis
      by (simp add: bucket_update insert_unique_def)
  next
    case (Some b)
    with assms m have "pl' = (if c \<notin> set b then pl\<lparr>TCC2 := AList.update ch (b @ [c]) (TCC2 pl)\<rparr> else pl)"
      by (simp add: add_counter_def split: if_splits)
    with bucket_Some [OF Some] show ?thesis
      by (simp add: bucket_update insert_unique_def)
  qed
  from bl t Chan show ?thesis by (cases d) (auto simp: bucket_of_def)
qed

lemma add_counters_bucket:
  "add_counters pl cs = Inr pl' \<Longrightarrow>
   bucket_of pl' d = foldl insert_unique (bucket_of pl d) (filter (\<lambda>c. dest_of c = d) cs)"
proof (induction cs arbitrary: pl)
  case Nil
  then show ?case by simp
next
  case (Cons c cs)
  from Cons.prems obtain pl1 where 1: "add_counter pl c = Inr pl1"
    and 2: "add_counters pl1 cs = Inr pl'"
    by (auto split: sum.splits)
  from Cons.IH [OF 2] add_counter_bucket [OF 1, of d] show ?case by simp
qed

lemma add_counters_append:
  "add_counters pl (xs @ ys) = (case add_counters pl xs of Inl e \<Rightarrow> Inl e | Inr pl1 \<Rightarrow> add_counters pl1 ys)"
  by (induction xs arbitrary: pl) (auto split: sum.splits)

lemma process_line_counters:
  assumes "process_line open_w dir st line = Inr st'"
  shows "add_counters (fst st) (line_counters line) = Inr (fst st')"
proof (cases "pmc_match (stext_of line)")
  case None
  with assms show ?thesis
    by (auto simp: process_line_def line_counters_def Let_def split: if_splits)
next
  case (Some g)
  show ?thesis
  proof (cases "accum \<in> set (split_ws g)")
    case True
    from process_line_accum [OF Some True, of open_w dir st] assms Some True show ?thesis
      by (auto simp: line_counters_def Let_def split: option.splits)
  next
    case False
    with assms Some pmc_match_nonempty [OF Some] show ?thesis
      by (auto simp: process_line_def line_counters_def Let_def split: sum.splits)
  qed
qed

lemma process_lines_counters:
  "process_lines open_w dir st lines = Inr st' \<Longrightarrow>
   add_counters (fst st) (concat (map line_counters lines)) = Inr (fst st')"
proof (induction lines arbitrary: st)
  case Nil
  then show ?case by simp
next
  case (Cons line lines)
  from Cons.prems obtain st1 where 1: "process_line open_w dir st line = Inr st1"
    and 2: "process_lines open_w dir st1 lines = Inr st'"
    by (auto split: sum.splits)
  from process_line_counters [OF 1] Cons.IH [OF 2] show ?case
    by (simp add: add_counters_append)
qed

lemma sort_channels_bucket:
  "sort_channels t chs = Inr t' \<Longrightarrow>
   bucket t' k = (if k \<in> str_nat ` set chs then sort (bucket t k) else bucket t k)"
proof (induction chs arbitrary: t)
  case Nil
  then show ?case by simp
next
  case (Cons ch chs)
  from Cons.prems obtain b where b: "lookup t (str_nat ch) = Inr b"
    and 2: "sort_channels (AList.update (str_nat ch) (sort b) t) chs = Inr t'"
    by (auto split: sum.splits)
  from lookup_Inr_bucket [OF b] have bb: "bucket t (str_nat ch) = b" by simp
  have idem: "sort (sort b) = sort b" by (simp add: sorted_sort_id)
  from Cons.IH [OF 2] bb idem show ?case
    by (auto simp: bucket_update)
qed

lemma initial_tcc2_empty:
  "(\<And>k. bucket d k = []) \<Longrightarrow> bucket (fold (\<lambda>ch d. AList.update (str_nat ch) [] d) chs d) k = []"
  by (induction chs arbitrary: d) (simp_all add: bucket_update)

lemma initial_buckets_empty: "bucket_of (initial_buckets n) d = []"
proof (cases d)
  case (Flat key)
  then show ?thesis by (simp add: bucket_of_def initial_buckets_def bucket_def)
next
  case (Chan ch)
  have "bucket (fold (\<lambda>ch d. AList.update (str_nat ch) [] d) [0..<n] []) ch = []"
    by (rule initial_tcc2_empty) (simp add: bucket_def)
  with Chan show ?thesis by (simp add: bucket_of_def initial_buckets_def)
qed

lemma perfmon_coalesce_buckets:
  assumes r: "perfmon_coalesce open_w pmc_files wd soc = Inr (pl, fs)"
    and cfg: "map_of perfmon_config soc = Some cfg"
  shows "bucket (blocks pl) key = first_seen (filter (\<lambda>c. dest_of c = Flat key) (bucketed pmc_files))"
    and "bucket (TCC2 pl) ch
         = (if ch \<in> channel_keys cfg
            then sort (first_seen (filter (\<lambda>c. dest_of c = Chan ch) (bucketed pmc_files)))
            else first_seen (filter (\<lambda>c. dest_of c = Chan ch) (bucketed pmc_files)))"
proof -
  from cfg have l: "lookup perfmon_config soc = Inr cfg" by (simp add: lookup_def)
  from r l obtain n st t where n: "lookup cfg ''TCC_channels'' = Inr n"
    and st: "process_lines open_w (wd @ ''/perfmon'') (initial_buckets n, []) (concat pmc_files) = Inr st"
    and t: "sort_channels (TCC2 (fst st)) [0..<n] = Inr t"
    and pl: "pl = (fst st)\<lparr>TCC2 := t\<rparr>"
    by (auto simp: perfmon_coalesce_def split: sum.splits)
  from lookup_Inr_cap [OF n] have cap: "cap cfg ''TCC_channels'' = n" by simp
  from process_lines_counters [OF st]
  have ac: "add_counters (initial_buckets n) (bucketed pmc_files) = Inr (fst st)"
    by (simp add: bucketed_def)
  note b = add_counters_bucket [OF ac, unfolded initial_buckets_empty]
  from b [of "Flat key"] pl
  show "bucket (blocks pl) key = first_seen (filter (\<lambda>c. dest_of c = Flat key) (bucketed pmc_files))"
    by (simp add: bucket_of_def first_seen_def)
  from b [of "Chan ch"] sort_channels_bucket [OF t, of ch] pl cap
  show "bucket (TCC2 pl) ch
         = (if ch \<in> channel_keys cfg
            then sort (first_seen (filter (\<lambda>c. dest_of c = Chan ch) (bucketed pmc_files)))
            else first_seen (filter (\<lambda>c. dest_of c = Chan ch) (bucketed pmc_files)))"
    by (simp add: bucket_of_def first_seen_def channel_keys_def)
qed

lemma insert_unique_distinct: "distinct b \<Longrightarrow> distinct (insert_unique b x)"
  by (simp add: insert_unique_def)

lemma foldl_insert_unique:
  "distinct b \<Longrightarrow> distinct (foldl insert_unique b xs) \<and> set (foldl insert_unique b xs) = set b \<union> set xs"
proof (induction xs arbitrary: b)
  case Nil
  then show ?case by simp
next
  case (Cons x xs)
  from Cons.IH [OF insert_unique_distinct [OF Cons.prems], of x] show ?case
    by (auto simp: insert_unique_def split: if_splits)
qed

lemma first_seen_distinct: "distinct (first_seen xs)"
  by (simp add: first_seen_def foldl_insert_unique)

lemma first_seen_set: "set (first_seen xs) = set xs"
  by (simp add: first_seen_def foldl_insert_unique)

lemma add_counter_total:
  assumes acc: "accepted c" and keys: "map fst (blocks pl) = block_names"
  shows "\<exists>pl'. add_counter pl c = Inr pl' \<and> map fst (blocks pl') = block_names
           \<and> (\<forall>k. map_of (TCC2 pl) k \<noteq> None \<longrightarrow> map_of (TCC2 pl') k \<noteq> None)"
proof (cases "dest_of c")
  case (Flat key)
  with acc have k: "key \<in> set block_names" by (simp add: accepted_def)
  then have k2: "key \<noteq> ''TCC2''" by (auto simp: block_names_def)
  from k keys have "key \<in> fst ` set (blocks pl)" by (metis set_map)
  then obtain b where b: "map_of (blocks pl) key = Some b"
    by (cases "map_of (blocks pl) key") (auto simp: map_of_eq_None_iff)
  then have l: "lookup (blocks pl) key = Inr b" by (simp add: lookup_def)
  have "add_counter pl c = append_unique pl key c"
    using Flat by (auto simp: add_counter_def dest_of_def split: if_splits option.splits)
  moreover have "\<exists>pl'. append_unique pl key c = Inr pl'"
    using k2 l by (simp add: append_unique_def)
  ultimately obtain pl' where r: "add_counter pl c = Inr pl'" "append_unique pl key c = Inr pl'"
    by auto
  from append_unique_bucket(2,5) [OF r(2)] keys r(1) show ?thesis by simp
next
  case (Chan ch)
  then have m: "ip_block c = ''TCC''" "channel_match c = Some ch"
    by (auto simp: dest_of_def split: if_splits option.splits)
  show ?thesis
    using m keys by (auto simp: add_counter_def update_conv' split: option.splits)
qed

lemma add_counters_total:
  assumes "list_all accepted cs" and "map fst (blocks pl) = block_names"
  shows "\<exists>pl'. add_counters pl cs = Inr pl' \<and> map fst (blocks pl') = block_names
           \<and> (\<forall>k. map_of (TCC2 pl) k \<noteq> None \<longrightarrow> map_of (TCC2 pl') k \<noteq> None)"
  using assms
proof (induction cs arbitrary: pl)
  case Nil
  then show ?case by simp
next
  case (Cons c cs)
  from Cons.prems have c: "accepted c" and cs: "list_all accepted cs" by simp_all
  from add_counter_total [OF c Cons.prems(2)] obtain pl1 where
    1: "add_counter pl c = Inr pl1" and k1: "map fst (blocks pl1) = block_names"
    and d1: "\<forall>k. map_of (TCC2 pl) k \<noteq> None \<longrightarrow> map_of (TCC2 pl1) k \<noteq> None"
    by blast
  from Cons.IH [OF cs k1] obtain pl' where
    2: "add_counters pl1 cs = Inr pl'" and k2: "map fst (blocks pl') = block_names"
    and d2: "\<forall>k. map_of (TCC2 pl1) k \<noteq> None \<longrightarrow> map_of (TCC2 pl') k \<noteq> None"
    by blast
  from 1 2 k2 d1 d2 show ?case by auto
qed

lemma add_counters_prefix:
  "add_counters pl (xs @ ys) = Inr pl' \<Longrightarrow> \<exists>pl1. add_counters pl xs = Inr pl1 \<and> add_counters pl1 ys = Inr pl'"
  by (auto simp: add_counters_append split: sum.splits)

lemma process_line_total:
  assumes "add_counters (fst st) (line_counters line) = Inr pl1"
    and ok: "\<forall>p. open_w p = None"
  shows "\<exists>fs. process_line open_w dir st line = Inr (pl1, fs)"
proof (cases "pmc_match (stext_of line)")
  case None
  with assms show ?thesis
    by (cases st) (auto simp: process_line_def line_counters_def Let_def)
next
  case (Some g)
  show ?thesis
  proof (cases "accum \<in> set (split_ws g)")
    case True
    from process_line_accum [OF Some True, of open_w dir st] assms Some True show ?thesis
      by (auto simp: line_counters_def Let_def)
  next
    case False
    with assms Some pmc_match_nonempty [OF Some] show ?thesis
      by (auto simp: process_line_def line_counters_def Let_def)
  qed
qed

lemma process_lines_total:
  "add_counters (fst st) (concat (map line_counters lines)) = Inr pl' \<Longrightarrow>
   \<forall>p. open_w p = None \<Longrightarrow>
   \<exists>fs. process_lines open_w dir st lines = Inr (pl', fs)"
proof (induction lines arbitrary: st)
  case Nil
  then show ?case by (cases st) simp
next
  case (Cons line lines)
  from Cons.prems obtain pl1 where 1: "add_counters (fst st) (line_counters line) = Inr pl1"
    and 2: "add_counters pl1 (concat (map line_counters lines)) = Inr pl'"
    by (auto dest: add_counters_prefix)
  from process_line_total [OF 1 Cons.prems(2)] obtain fs1 where 3: "process_line open_w dir st line = Inr (pl1, fs1)" ..
  have "\<exists>fs. process_lines open_w dir (pl1, fs1) lines = Inr (pl', fs)"
  proof (rule Cons.IH)
    from 2 show "add_counters (fst (pl1, fs1)) (concat (map line_counters lines)) = Inr pl'" by simp
    show "\<forall>p. open_w p = None" by (rule Cons.prems(2))
  qed
  then obtain fs where "process_lines open_w dir (pl1, fs1) lines = Inr (pl', fs)" ..
  with 3 show ?case by simp
qed

lemma sort_channels_total:
  "(\<And>ch. ch \<in> set chs \<Longrightarrow> map_of t (str_nat ch) \<noteq> None) \<Longrightarrow> \<exists>t'. sort_channels t chs = Inr t'"
proof (induction chs arbitrary: t)
  case Nil
  then show ?case by simp
next
  case (Cons ch chs)
  from Cons.prems [of ch] obtain b where b: "map_of t (str_nat ch) = Some b" by auto
  then have l: "lookup t (str_nat ch) = Inr b" by (simp add: lookup_def)
  have "\<exists>t'. sort_channels (AList.update (str_nat ch) (sort b) t) chs = Inr t'"
  proof (rule Cons.IH)
    fix c assume "c \<in> set chs"
    with Cons.prems [of c] show "map_of (AList.update (str_nat ch) (sort b) t) (str_nat c) \<noteq> None"
      by (simp add: update_conv')
  qed
  with l show ?case by simp
qed

lemma initial_tcc2_keys:
  "ch \<in> set chs \<or> map_of d (str_nat ch) \<noteq> None \<Longrightarrow>
   map_of (fold (\<lambda>ch d. AList.update (str_nat ch) [] d) chs d) (str_nat ch) \<noteq> None"
proof (induction chs arbitrary: d)
  case Nil
  then show ?case by simp
next
  case (Cons c chs)
  have "ch \<in> set chs \<or> map_of (AList.update (str_nat c) [] d) (str_nat ch) \<noteq> None"
    using Cons.prems by (auto simp: update_conv')
  from Cons.IH [OF this] show ?case by simp
qed

lemma config_channels: "map_of perfmon_config soc = Some cfg \<Longrightarrow> map_of cfg ''TCC_channels'' \<noteq> None"
  by (auto simp: perfmon_config_def split: if_splits)

lemma perfmon_coalesce_total:
  assumes cfg: "map_of perfmon_config soc = Some cfg"
    and acc: "list_all accepted (bucketed pmc_files)"
    and ok: "\<forall>p. open_w p = None"
  shows "\<exists>pl fs. perfmon_coalesce open_w pmc_files wd soc = Inr (pl, fs)"
proof -
  from cfg have l: "lookup perfmon_config soc = Inr cfg" by (simp add: lookup_def)
  from config_channels [OF cfg] have n: "lookup cfg ''TCC_channels'' = Inr (cap cfg ''TCC_channels'')"
    by (rule lookup_cap)
  let ?n = "cap cfg ''TCC_channels''"
  have keys: "map fst (blocks (initial_buckets ?n)) = block_names"
    by (simp add: initial_buckets_def block_names_def)
  from add_counters_total [OF acc keys] obtain pl1 where
    1: "add_counters (initial_buckets ?n) (bucketed pmc_files) = Inr pl1"
    and d: "\<forall>k. map_of (TCC2 (initial_buckets ?n)) k \<noteq> None \<longrightarrow> map_of (TCC2 pl1) k \<noteq> None"
    by blast
  from process_lines_total [of "(initial_buckets ?n, [])" "concat pmc_files" pl1 open_w "wd @ ''/perfmon''"] 1 ok
  obtain fs where 2: "process_lines open_w (wd @ ''/perfmon'') (initial_buckets ?n, []) (concat pmc_files) = Inr (pl1, fs)"
    by (auto simp: bucketed_def)
  have "\<exists>t. sort_channels (TCC2 pl1) [0..<?n] = Inr t"
  proof (rule sort_channels_total)
    fix ch assume "ch \<in> set [0..<?n]"
    then have "map_of (TCC2 (initial_buckets ?n)) (str_nat ch) \<noteq> None"
      unfolding initial_buckets_def by (simp add: initial_tcc2_keys)
    with d show "map_of (TCC2 pl1) (str_nat ch) \<noteq> None" by blast
  qed
  then obtain t where 3: "sort_channels (TCC2 pl1) [0..<?n] = Inr t" ..
  from l n 2 3 show ?thesis by (simp add: perfmon_coalesce_def)
qed

lemma count_list_distinct: "distinct xs \<Longrightarrow> count_list xs x = (if x \<in> set xs then 1 else 0)"
  by (induction xs) auto

lemma count_first_seen: "x \<in> set xs \<Longrightarrow> count_list (first_seen xs) x = 1"
  by (simp add: count_list_distinct first_seen_distinct first_seen_set)

lemma count_sort_first_seen: "x \<in> set xs \<Longrightarrow> count_list (sort (first_seen xs)) x = 1"
  by (simp add: count_list_distinct first_seen_distinct first_seen_set)

lemma example_coalesce_run:
  "perfmon_coalesce (plain_dir ''wd/perfmon'') example_sources ''wd'' ''vega10'' = Inr (example_coalesced, example_files)"
  by code_simp

section \<open>Sorted channels with the same names\<close>

lemma bracket_less:
  "CHR ''['' \<notin> set x \<Longrightarrow> CHR ''['' \<notin> set y \<Longrightarrow> x \<noteq> y \<Longrightarrow>
   (x @ CHR ''['' # s < y @ CHR ''['' # t) = (x @ ''['' < y @ ''['')"
proof (induction x arbitrary: y)
  case Nil
  then show ?case by (cases y) auto
next
  case (Cons a x)
  then show ?case by (cases y) auto
qed

lemma counter_name_channel_counter:
  "CHR ''['' \<notin> set n \<Longrightarrow> counter_name (channel_counter ch n) = n"
  by (auto simp: counter_name_def channel_counter_def takeWhile_tail takeWhile_eq_all_conv)

lemma channel_names_sorted:
  assumes s: "sorted A" and d: "distinct A"
    and A: "set A = channel_counter ch ` set N"
    and N: "\<forall>n \<in> set N. CHR ''['' \<notin> set n"
  shows "sorted_wrt (<) (map (\<lambda>n. n @ ''['') (map counter_name A))"
    and "set (map counter_name A) = set N"
proof -
  from s d have "sorted_wrt (<) A" by (simp add: strict_sorted_iff)
  then have "sorted_wrt (\<lambda>x y. counter_name x @ ''['' < counter_name y @ ''['') A"
  proof (rule sorted_wrt_mono_rel [rotated])
    fix x y assume "x \<in> set A" "y \<in> set A" and l: "x < y"
    with A obtain n m where n: "n \<in> set N" "x = channel_counter ch n"
      and m: "m \<in> set N" "y = channel_counter ch m" by auto
    from n m N have b: "CHR ''['' \<notin> set n" "CHR ''['' \<notin> set m" by auto
    from l n m have ne: "n \<noteq> m" by auto
    from l n m have "n @ CHR ''['' # (str_nat ch @ '']'') < m @ CHR ''['' # (str_nat ch @ '']'')"
      by (simp add: channel_counter_def)
    then have "n @ ''['' < m @ ''[''" by (rule iffD1 [OF bracket_less [OF b ne]])
    with n m b show "counter_name x @ ''['' < counter_name y @ ''[''"
      by (simp add: counter_name_channel_counter)
  qed
  then show "sorted_wrt (<) (map (\<lambda>n. n @ ''['') (map counter_name A))"
    by (simp add: sorted_wrt_map)
  from A N show "set (map counter_name A) = set N"
    by (auto simp: counter_name_channel_counter image_iff)
qed

lemma channels_aligned:
  assumes "sorted A" "distinct A" "set A = channel_counter a ` set N"
    and "sorted B" "distinct B" "set B = channel_counter b ` set N"
    and N: "\<forall>n \<in> set N. CHR ''['' \<notin> set n"
  shows "map counter_name A = map counter_name B"
proof -
  note sa = channel_names_sorted [OF assms(1,2,3) N]
  note sb = channel_names_sorted [OF assms(4,5,6) N]
  from sb(2) sa(2) [symmetric] have "set (map counter_name B) = set (map counter_name A)" by (rule trans)
  then have "(\<lambda>n. n @ ''['') ` set (map counter_name B) = (\<lambda>n. n @ ''['') ` set (map counter_name A)"
    by (rule arg_cong)
  then have "set (map (\<lambda>n. n @ ''['') (map counter_name B))
      = set (map (\<lambda>n. n @ ''['') (map counter_name A))" by (simp only: set_map)
  with sa(1) sb(1) have "map (\<lambda>n. n @ ''['') (map counter_name B)
      = map (\<lambda>n. n @ ''['') (map counter_name A)"
    by (rule strict_sorted_equal)
  moreover have "inj (\<lambda>n :: string. n @ ''['')" by (rule injI) simp
  ultimately show ?thesis by (metis map_injective)
qed

lemma aligned_coalesce_run:
  "perfmon_coalesce (plain_dir ''wd/perfmon'') aligned_sources ''wd'' ''vega10'' = Inr (aligned_coalesced, [])"
  by code_simp

section \<open>The pass scheduler\<close>

text \<open>
  C1. On every architecture of the table and every bucket structure that
  \<open>perfmon_emit\<close> accepts, the function returns, and the number of pass lines it writes
  is the maximum of the largest \<open>ceil(size / capacity)\<close> of an ordinary block and of
  \<open>ceil(aggregated TCC size / capacity) + ceil(largest channel size / capacity)\<close>. The
  file holds one line per pass, then the three lines of the footer.
\<close>

theorem pass_count_emitted:
  assumes cfg: "map_of perfmon_config soc = Some cfg"
    and ok: "emit_ok cfg pl"
  shows "\<exists>ps. perfmon_passes pl soc = Inr ps
           \<and> length ps = pass_count cfg pl
           \<and> perfmon_emit pl soc = Inr (map (\<lambda>p. pass_line p @ [CHR 0x0A]) ps @ footer)"
proof -
  have "perfmon_passes pl soc = Inr (map (pass_at cfg pl) [0..<pass_count cfg pl])"
    using cfg ok by (simp add: perfmon_passes_iff)
  then show ?thesis by (simp add: perfmon_emit_def)
qed

theorem pass_count_emitted_witness:
  "map_of perfmon_config ''vega10'' = Some vega10 \<and> emit_ok vega10 example_buckets
   \<and> perfmon_passes example_buckets ''vega10'' = Inr example_passes
   \<and> length example_passes = 2
   \<and> perfmon_emit example_buckets ''vega10''
       = Inr (map (\<lambda>p. pass_line p @ [CHR 0x0A]) example_passes @ footer)"
  using pass_count_emitted [OF vega10_config example_emit_ok]
  by (simp add: vega10_config example_emit_ok example_run example_pass_count)



text \<open>
  C3. No pass gives a block more counters than its capacity: every slice of an ordinary
  block is at most its capacity long; a pass that takes aggregated TCC counters takes at
  most the TCC capacity of them and no per-channel counter; every other pass takes, from
  each channel, a slice of at most the TCC capacity. (The TCC counters of such a pass are
  the slices of all channels, so their total can reach the capacity times the number of
  channels.)
\<close>

theorem pass_within_capacity:
  assumes cfg: "map_of perfmon_config soc = Some cfg"
    and ps: "perfmon_passes pl soc = Inr ps"
  shows "\<forall>i < length ps.
           (\<forall>(key, cs) \<in> set (ip (ps ! i)). length cs \<le> cap cfg key)
         \<and> (i < tcc_passes cfg pl \<longrightarrow>
               tcc (ps ! i) = slice (bucket (blocks pl) ''TCC'') (i * cap cfg ''TCC'')
                                 (i * cap cfg ''TCC'' + cap cfg ''TCC'')
               \<and> length (tcc (ps ! i)) \<le> cap cfg ''TCC'')
         \<and> (tcc_passes cfg pl \<le> i \<longrightarrow>
               tcc (ps ! i) = concat (map (channel_slice cfg pl (i - tcc_passes cfg pl))
                                        [0..<cap cfg ''TCC_channels''])
               \<and> (\<forall>ch. length (channel_slice cfg pl (i - tcc_passes cfg pl) ch) \<le> cap cfg ''TCC''))"
proof (intro allI impI)
  fix i assume i: "i < length ps"
  from ps cfg have eq: "ps = map (pass_at cfg pl) [0..<pass_count cfg pl]"
    by (auto simp: perfmon_passes_iff)
  from i eq have p: "ps ! i = pass_at cfg pl i" by simp
  have 1: "\<forall>(key, cs) \<in> set (ip (ps ! i)). length cs \<le> cap cfg key"
    unfolding p pass_at_def by (auto simp: slice_def)
  have 2: "i < tcc_passes cfg pl \<longrightarrow>
               tcc (ps ! i) = slice (bucket (blocks pl) ''TCC'') (i * cap cfg ''TCC'')
                                 (i * cap cfg ''TCC'' + cap cfg ''TCC'')
               \<and> length (tcc (ps ! i)) \<le> cap cfg ''TCC''"
    unfolding p pass_at_def
    using slice_length [of "bucket (blocks pl) ''TCC''" "i * cap cfg ''TCC''" "i * cap cfg ''TCC'' + cap cfg ''TCC''"]
    by simp
  have 3: "tcc_passes cfg pl \<le> i \<longrightarrow>
               tcc (ps ! i) = concat (map (channel_slice cfg pl (i - tcc_passes cfg pl))
                                        [0..<cap cfg ''TCC_channels''])
               \<and> (\<forall>ch. length (channel_slice cfg pl (i - tcc_passes cfg pl) ch) \<le> cap cfg ''TCC'')"
    unfolding p
  proof (intro impI conjI allI)
    assume "tcc_passes cfg pl \<le> i"
    then show "tcc (pass_at cfg pl i) = concat (map (channel_slice cfg pl (i - tcc_passes cfg pl))
                                        [0..<cap cfg ''TCC_channels''])"
      by (simp add: pass_at_def)
  next
    fix ch
    show "length (channel_slice cfg pl (i - tcc_passes cfg pl) ch) \<le> cap cfg ''TCC''"
      unfolding channel_slice_def
      using slice_length [of "channel pl ch" "(i - tcc_passes cfg pl) * cap cfg ''TCC''"
          "(i - tcc_passes cfg pl) * cap cfg ''TCC'' + cap cfg ''TCC''"]
      by simp
  qed
  from 1 2 3 show "(\<forall>(key, cs) \<in> set (ip (ps ! i)). length cs \<le> cap cfg key)
         \<and> (i < tcc_passes cfg pl \<longrightarrow>
               tcc (ps ! i) = slice (bucket (blocks pl) ''TCC'') (i * cap cfg ''TCC'')
                                 (i * cap cfg ''TCC'' + cap cfg ''TCC'')
               \<and> length (tcc (ps ! i)) \<le> cap cfg ''TCC'')
         \<and> (tcc_passes cfg pl \<le> i \<longrightarrow>
               tcc (ps ! i) = concat (map (channel_slice cfg pl (i - tcc_passes cfg pl))
                                        [0..<cap cfg ''TCC_channels''])
               \<and> (\<forall>ch. length (channel_slice cfg pl (i - tcc_passes cfg pl) ch) \<le> cap cfg ''TCC''))"
    by blast
qed

theorem pass_within_capacity_witness:
  "map_of perfmon_config ''vega10'' = Some vega10
   \<and> perfmon_passes example_buckets ''vega10'' = Inr example_passes
   \<and> length (snd (ip (example_passes ! 0) ! 0)) \<le> cap vega10 ''SQ''
   \<and> length (tcc (example_passes ! 0)) \<le> cap vega10 ''TCC''
   \<and> length (channel_slice vega10 example_buckets 0 3) \<le> cap vega10 ''TCC''"
proof -
  note t = pass_within_capacity [OF vega10_config example_run]
  have len: "0 < length example_passes" "1 < length example_passes"
    by (simp_all add: example_passes_def)
  have tp: "0 < tcc_passes vega10 example_buckets" "tcc_passes vega10 example_buckets \<le> 1"
    by (simp_all add: example_tcc_passes)
  from t len(1) have a: "\<forall>(key, cs) \<in> set (ip (example_passes ! 0)). length cs \<le> cap vega10 key"
    by blast
  have "(''SQ'', snd (ip (example_passes ! 0) ! 0)) \<in> set (ip (example_passes ! 0))"
    by (simp add: example_passes_def)
  with a have 1: "length (snd (ip (example_passes ! 0) ! 0)) \<le> cap vega10 ''SQ''"
    by blast
  from t len(1) tp(1) have 2: "length (tcc (example_passes ! 0)) \<le> cap vega10 ''TCC''"
    by blast
  from t len(2) tp(2)
  have "length (channel_slice vega10 example_buckets (1 - tcc_passes vega10 example_buckets) 3)
          \<le> cap vega10 ''TCC''"
    by blast
  then have 3: "length (channel_slice vega10 example_buckets 0 3) \<le> cap vega10 ''TCC''"
    by (simp add: example_tcc_passes)
  from vega10_config example_run 1 2 3 show ?thesis by simp
qed

section \<open>The coalescer\<close>

text \<open>
  C5, as the code has it. After \<open>perfmon_coalesce\<close> returns, a counter that stands on a
  counter-list line without the accumulator, however often and in however many sources,
  is held exactly once by its bucket. The bucket of a block, the aggregated TCC bucket
  among them, and the sub-bucket of a channel that is not a channel of the architecture
  hold their counters in the order of first appearance; the sub-bucket of a channel of
  the architecture holds them sorted. A counter of one channel is in no other channel's
  sub-bucket, so two channel indices give two entries in two sub-buckets.

  The claim as stated fails twice on the input of the counterexample below: \<open>TCC_B[0]\<close>
  occurs in both sources and first, yet its sub-bucket is sorted, not in order of first
  appearance; \<open>SQ_LVL\<close> occurs in both sources on a line with the accumulator and is in
  no bucket.
\<close>

theorem coalesce_unique_first_seen:
  assumes r: "perfmon_coalesce open_w pmc_files wd soc = Inr (pl, fs)"
    and cfg: "map_of perfmon_config soc = Some cfg"
    and c: "c \<in> set (bucketed pmc_files)"
  shows "(\<forall>key. dest_of c = Flat key \<longrightarrow>
            bucket (blocks pl) key
              = first_seen (filter (\<lambda>x. dest_of x = Flat key) (bucketed pmc_files))
            \<and> count_list (bucket (blocks pl) key) c = 1)
       \<and> (\<forall>ch. dest_of c = Chan ch \<longrightarrow>
            count_list (bucket (TCC2 pl) ch) c = 1
            \<and> (ch \<notin> channel_keys cfg \<longrightarrow>
                 bucket (TCC2 pl) ch
                   = first_seen (filter (\<lambda>x. dest_of x = Chan ch) (bucketed pmc_files)))
            \<and> (ch \<in> channel_keys cfg \<longrightarrow>
                 bucket (TCC2 pl) ch
                   = sort (first_seen (filter (\<lambda>x. dest_of x = Chan ch) (bucketed pmc_files))))
            \<and> (\<forall>ch'. ch' \<noteq> ch \<longrightarrow> c \<notin> set (bucket (TCC2 pl) ch')))"
proof (intro conjI allI impI)
  fix key assume d: "dest_of c = Flat key"
  show "bucket (blocks pl) key
          = first_seen (filter (\<lambda>x. dest_of x = Flat key) (bucketed pmc_files))"
    by (rule perfmon_coalesce_buckets(1) [OF r cfg])
  from c d have "c \<in> set (filter (\<lambda>x. dest_of x = Flat key) (bucketed pmc_files))" by simp
  then show "count_list (bucket (blocks pl) key) c = 1"
    unfolding perfmon_coalesce_buckets(1) [OF r cfg] by (rule count_first_seen)
next
  fix ch assume d: "dest_of c = Chan ch"
  note b = perfmon_coalesce_buckets(2) [OF r cfg]
  from c d have m: "c \<in> set (filter (\<lambda>x. dest_of x = Chan ch) (bucketed pmc_files))" by simp
  show "count_list (bucket (TCC2 pl) ch) c = 1"
    unfolding b using count_first_seen [OF m] count_sort_first_seen [OF m] by simp
  {
    assume "ch \<notin> channel_keys cfg"
    then show "bucket (TCC2 pl) ch
                 = first_seen (filter (\<lambda>x. dest_of x = Chan ch) (bucketed pmc_files))"
      by (simp add: b)
  }
  {
    assume "ch \<in> channel_keys cfg"
    then show "bucket (TCC2 pl) ch
                 = sort (first_seen (filter (\<lambda>x. dest_of x = Chan ch) (bucketed pmc_files)))"
      by (simp add: b)
  }
  {
    fix ch' assume "ch' \<noteq> ch"
    with d show "c \<notin> set (bucket (TCC2 pl) ch')"
      unfolding b by (simp add: first_seen_set)
  }
qed

theorem coalesce_unique_first_seen_witness:
  "perfmon_coalesce (plain_dir ''wd/perfmon'') example_sources ''wd'' ''vega10'' = Inr (example_coalesced, example_files)
   \<and> map_of perfmon_config ''vega10'' = Some vega10
   \<and> ''SQ_WAVES'' \<in> set (bucketed example_sources)
   \<and> dest_of ''SQ_WAVES'' = Flat ''SQ''
   \<and> bucket (blocks example_coalesced) ''SQ''
       = first_seen (filter (\<lambda>x. dest_of x = Flat ''SQ'') (bucketed example_sources))
   \<and> count_list (bucket (blocks example_coalesced) ''SQ'') ''SQ_WAVES'' = 1
   \<and> ''TCC_B[0]'' \<in> set (bucketed example_sources)
   \<and> dest_of ''TCC_B[0]'' = Chan ''0''
   \<and> count_list (bucket (TCC2 example_coalesced) ''0'') ''TCC_B[0]'' = 1
   \<and> ''TCC_B[0]'' \<notin> set (bucket (TCC2 example_coalesced) ''1'')"
proof -
  have m1: "''SQ_WAVES'' \<in> set (bucketed example_sources)" by code_simp
  have d1: "dest_of ''SQ_WAVES'' = Flat ''SQ''" by code_simp
  have m2: "''TCC_B[0]'' \<in> set (bucketed example_sources)" by code_simp
  have d2: "dest_of ''TCC_B[0]'' = Chan ''0''" by code_simp
  note t1 = coalesce_unique_first_seen [OF example_coalesce_run vega10_config m1]
  note t2 = coalesce_unique_first_seen [OF example_coalesce_run vega10_config m2]
  from t1 have "dest_of ''SQ_WAVES'' = Flat ''SQ'' \<longrightarrow>
      bucket (blocks example_coalesced) ''SQ''
        = first_seen (filter (\<lambda>x. dest_of x = Flat ''SQ'') (bucketed example_sources))
      \<and> count_list (bucket (blocks example_coalesced) ''SQ'') ''SQ_WAVES'' = 1"
    by (elim conjE allE [of _ "''SQ''"])
  then have c1: "bucket (blocks example_coalesced) ''SQ''
        = first_seen (filter (\<lambda>x. dest_of x = Flat ''SQ'') (bucketed example_sources))
      \<and> count_list (bucket (blocks example_coalesced) ''SQ'') ''SQ_WAVES'' = 1"
    using d1 by (rule mp)
  from c1 have 1: "bucket (blocks example_coalesced) ''SQ''
       = first_seen (filter (\<lambda>x. dest_of x = Flat ''SQ'') (bucketed example_sources))"
    by (rule conjunct1)
  from c1 have 2: "count_list (bucket (blocks example_coalesced) ''SQ'') ''SQ_WAVES'' = 1"
    by (rule conjunct2)
  from t2 have "dest_of ''TCC_B[0]'' = Chan ''0'' \<longrightarrow>
      count_list (bucket (TCC2 example_coalesced) ''0'') ''TCC_B[0]'' = 1
      \<and> (''0'' \<notin> channel_keys vega10 \<longrightarrow>
           bucket (TCC2 example_coalesced) ''0''
             = first_seen (filter (\<lambda>x. dest_of x = Chan ''0'') (bucketed example_sources)))
      \<and> (''0'' \<in> channel_keys vega10 \<longrightarrow>
           bucket (TCC2 example_coalesced) ''0''
             = sort (first_seen (filter (\<lambda>x. dest_of x = Chan ''0'') (bucketed example_sources))))
      \<and> (\<forall>ch'. ch' \<noteq> ''0'' \<longrightarrow> ''TCC_B[0]'' \<notin> set (bucket (TCC2 example_coalesced) ch'))"
    by (elim conjE allE [of _ "''0''"])
  then have c2: "count_list (bucket (TCC2 example_coalesced) ''0'') ''TCC_B[0]'' = 1
      \<and> (''0'' \<notin> channel_keys vega10 \<longrightarrow>
           bucket (TCC2 example_coalesced) ''0''
             = first_seen (filter (\<lambda>x. dest_of x = Chan ''0'') (bucketed example_sources)))
      \<and> (''0'' \<in> channel_keys vega10 \<longrightarrow>
           bucket (TCC2 example_coalesced) ''0''
             = sort (first_seen (filter (\<lambda>x. dest_of x = Chan ''0'') (bucketed example_sources))))
      \<and> (\<forall>ch'. ch' \<noteq> ''0'' \<longrightarrow> ''TCC_B[0]'' \<notin> set (bucket (TCC2 example_coalesced) ch'))"
    using d2 by (rule mp)
  from c2 have 3: "count_list (bucket (TCC2 example_coalesced) ''0'') ''TCC_B[0]'' = 1"
    by (rule conjunct1)
  from c2 have o: "\<forall>ch'. ch' \<noteq> ''0'' \<longrightarrow> ''TCC_B[0]'' \<notin> set (bucket (TCC2 example_coalesced) ch')"
    by (elim conjE)
  have ne: "''1'' \<noteq> ''0''" by simp
  from o have "''1'' \<noteq> ''0'' \<longrightarrow> ''TCC_B[0]'' \<notin> set (bucket (TCC2 example_coalesced) ''1'')"
    by (rule spec)
  with ne have 4: "''TCC_B[0]'' \<notin> set (bucket (TCC2 example_coalesced) ''1'')"
    by (rule rev_mp)
  show ?thesis
    by (intro conjI) (fact example_coalesce_run vega10_config m1 d1 1 2 m2 d2 3 4)+
qed

theorem coalesce_unique_first_seen_counterexample:
  "map_sum id (\<lambda>r. (bucket (TCC2 (fst r)) ''0'', bucket (blocks (fst r)) ''SQ''))
     (perfmon_coalesce (plain_dir ''wd/perfmon'')
        [[''pmc: TCC_B[0]'', ''pmc: SQ_LVL SQ_ACCUM_PREV_HIRES''],
         [''pmc: TCC_A[0] TCC_B[0]'', ''pmc: SQ_LVL SQ_ACCUM_PREV_HIRES'']] ''wd'' ''vega10'')
   = Inr ([''TCC_A[0]'', ''TCC_B[0]''], [])
   \<and> first_seen [''TCC_B[0]'', ''TCC_A[0]'', ''TCC_B[0]''] = [''TCC_B[0]'', ''TCC_A[0]'']"
  by code_simp

text \<open>
  C6, as the code has it. After \<open>perfmon_coalesce\<close> returns, the sub-bucket of every
  channel of the architecture is sorted by counter name and holds each counter of that
  channel once. Two channels of the architecture that hold the same counter names, each
  counter written \<open>name[channel]\<close> with a name free of \<open>[\<close>, have as many counters, and
  the name at a fixed offset is the same on both. A sub-bucket made for any other
  channel index keeps the order of first appearance.

  The claim as stated fails on the inputs of the counterexample below: the sub-bucket of
  channel 99 is not sorted; every channel of vega10 has a counter at offset 0, yet the
  name there is \<open>TCC_A\<close> on channel 0 and \<open>TCC_B\<close> on the others, which do not hold the
  same names; and on the second input the channels 1 and 9 hold the names \<open>TCC_A\<close> and
  \<open>TCC_A[5\<close>, in opposite orders.
\<close>

theorem channels_sorted:
  assumes r: "perfmon_coalesce open_w pmc_files wd soc = Inr (pl, fs)"
    and cfg: "map_of perfmon_config soc = Some cfg"
  shows "(\<forall>ch < cap cfg ''TCC_channels''.
            sorted (channel pl ch) \<and> distinct (channel pl ch)
            \<and> set (channel pl ch) = {c \<in> set (bucketed pmc_files). dest_of c = Chan (str_nat ch)})
       \<and> (\<forall>a < cap cfg ''TCC_channels''. \<forall>b < cap cfg ''TCC_channels''. \<forall>N.
            (\<forall>n \<in> set N. CHR ''['' \<notin> set n)
            \<and> set (channel pl a) = channel_counter a ` set N
            \<and> set (channel pl b) = channel_counter b ` set N
            \<longrightarrow> length (channel pl a) = length (channel pl b)
                \<and> (\<forall>i < length (channel pl a).
                      counter_name (channel pl a ! i) = counter_name (channel pl b ! i)))
       \<and> (\<forall>ch. ch \<notin> channel_keys cfg \<longrightarrow>
            bucket (TCC2 pl) ch
              = first_seen (filter (\<lambda>c. dest_of c = Chan ch) (bucketed pmc_files)))"
proof -
  have s: "sorted (channel pl ch) \<and> distinct (channel pl ch)
           \<and> set (channel pl ch) = {c \<in> set (bucketed pmc_files). dest_of c = Chan (str_nat ch)}"
    if "ch < cap cfg ''TCC_channels''" for ch
  proof -
    from that have k: "str_nat ch \<in> channel_keys cfg" by (simp add: channel_keys_def)
    have b: "channel pl ch
             = sort (first_seen (filter (\<lambda>c. dest_of c = Chan (str_nat ch)) (bucketed pmc_files)))"
      unfolding channel_def using perfmon_coalesce_buckets(2) [OF r cfg, of "str_nat ch"] k by simp
    have "sorted (channel pl ch)" unfolding b by simp
    moreover have "distinct (channel pl ch)" unfolding b by (simp add: first_seen_distinct)
    moreover have "set (channel pl ch)
                   = {c \<in> set (bucketed pmc_files). dest_of c = Chan (str_nat ch)}"
      unfolding b by (auto simp: first_seen_set)
    ultimately show ?thesis by simp
  qed
  have al: "length (channel pl a) = length (channel pl b)
            \<and> (\<forall>i < length (channel pl a).
                  counter_name (channel pl a ! i) = counter_name (channel pl b ! i))"
    if a: "a < cap cfg ''TCC_channels''" and b: "b < cap cfg ''TCC_channels''"
      and h: "(\<forall>n \<in> set N. CHR ''['' \<notin> set n)
              \<and> set (channel pl a) = channel_counter a ` set N
              \<and> set (channel pl b) = channel_counter b ` set N"
    for a b N
  proof -
    from h have N: "\<forall>n \<in> set N. CHR ''['' \<notin> set n"
      and A: "set (channel pl a) = channel_counter a ` set N"
      and B: "set (channel pl b) = channel_counter b ` set N" by simp_all
    from s [OF a] have sa: "sorted (channel pl a)" "distinct (channel pl a)" by simp_all
    from s [OF b] have sb: "sorted (channel pl b)" "distinct (channel pl b)" by simp_all
    have m: "map counter_name (channel pl a) = map counter_name (channel pl b)"
      using sa A sb B N by (rule channels_aligned)
    then have l: "length (channel pl a) = length (channel pl b)" by (rule map_eq_imp_length_eq)
    have "counter_name (channel pl a ! i) = counter_name (channel pl b ! i)"
      if "i < length (channel pl a)" for i
    proof -
      from that have "counter_name (channel pl a ! i) = map counter_name (channel pl a) ! i"
        by simp
      also have "\<dots> = map counter_name (channel pl b) ! i" by (simp only: m)
      also from that l have "\<dots> = counter_name (channel pl b ! i)" by simp
      finally show ?thesis .
    qed
    with l show ?thesis by simp
  qed
  have o: "bucket (TCC2 pl) ch
           = first_seen (filter (\<lambda>c. dest_of c = Chan ch) (bucketed pmc_files))"
    if "ch \<notin> channel_keys cfg" for ch
    using perfmon_coalesce_buckets(2) [OF r cfg, of ch] that by simp
  have p1: "\<forall>ch < cap cfg ''TCC_channels''.
            sorted (channel pl ch) \<and> distinct (channel pl ch)
            \<and> set (channel pl ch) = {c \<in> set (bucketed pmc_files). dest_of c = Chan (str_nat ch)}"
    by (intro allI impI) (rule s)
  have p2: "\<forall>a < cap cfg ''TCC_channels''. \<forall>b < cap cfg ''TCC_channels''. \<forall>N.
            (\<forall>n \<in> set N. CHR ''['' \<notin> set n)
            \<and> set (channel pl a) = channel_counter a ` set N
            \<and> set (channel pl b) = channel_counter b ` set N
            \<longrightarrow> length (channel pl a) = length (channel pl b)
                \<and> (\<forall>i < length (channel pl a).
                      counter_name (channel pl a ! i) = counter_name (channel pl b ! i))"
    by (intro allI impI) (rule al, assumption+)
  have p3: "\<forall>ch. ch \<notin> channel_keys cfg \<longrightarrow>
            bucket (TCC2 pl) ch
              = first_seen (filter (\<lambda>c. dest_of c = Chan ch) (bucketed pmc_files))"
    by (intro allI impI) (rule o)
  show ?thesis by (rule conjI [OF p1 conjI [OF p2 p3]])
qed

theorem channels_sorted_witness:
  "perfmon_coalesce (plain_dir ''wd/perfmon'') aligned_sources ''wd'' ''vega10''
     = Inr (aligned_coalesced, [])
   \<and> map_of perfmon_config ''vega10'' = Some vega10
   \<and> 0 < cap vega10 ''TCC_channels'' \<and> 1 < cap vega10 ''TCC_channels''
   \<and> CHR ''['' \<notin> set ''TCC_B'' \<and> CHR ''['' \<notin> set ''TCC_A''
   \<and> set (channel aligned_coalesced 0) = channel_counter 0 ` set [''TCC_B'', ''TCC_A'']
   \<and> set (channel aligned_coalesced 1) = channel_counter 1 ` set [''TCC_B'', ''TCC_A'']
   \<and> sorted (channel aligned_coalesced 0)
   \<and> distinct (channel aligned_coalesced 0)
   \<and> channel aligned_coalesced 0 = [''TCC_A[0]'', ''TCC_B[0]'']
   \<and> channel aligned_coalesced 1 = [''TCC_A[1]'', ''TCC_B[1]'']
   \<and> length (channel aligned_coalesced 0) = length (channel aligned_coalesced 1)
   \<and> counter_name (channel aligned_coalesced 0 ! 0) = counter_name (channel aligned_coalesced 1 ! 0)
   \<and> counter_name (channel aligned_coalesced 0 ! 1) = counter_name (channel aligned_coalesced 1 ! 1)
   \<and> counter_name (channel aligned_coalesced 0 ! 1) = ''TCC_B''
   \<and> ''99'' \<notin> channel_keys vega10
   \<and> bucket (TCC2 aligned_coalesced) ''99''
       = first_seen (filter (\<lambda>c. dest_of c = Chan ''99'') (bucketed aligned_sources))"
proof -
  note t = channels_sorted [OF aligned_coalesce_run vega10_config]
  have c0: "0 < cap vega10 ''TCC_channels''" by code_simp
  have c1: "1 < cap vega10 ''TCC_channels''" by code_simp
  have n1: "CHR ''['' \<notin> set ''TCC_B''" by code_simp
  have n2: "CHR ''['' \<notin> set ''TCC_A''" by code_simp
  have h0: "set (channel aligned_coalesced 0) = channel_counter 0 ` set [''TCC_B'', ''TCC_A'']"
    by code_simp
  have h1: "set (channel aligned_coalesced 1) = channel_counter 1 ` set [''TCC_B'', ''TCC_A'']"
    by code_simp
  from n1 n2 have N: "\<forall>n \<in> set [''TCC_B'', ''TCC_A'']. CHR ''['' \<notin> set n" by simp
  from N h0 h1 have h: "(\<forall>n \<in> set [''TCC_B'', ''TCC_A'']. CHR ''['' \<notin> set n)
      \<and> set (channel aligned_coalesced 0) = channel_counter 0 ` set [''TCC_B'', ''TCC_A'']
      \<and> set (channel aligned_coalesced 1) = channel_counter 1 ` set [''TCC_B'', ''TCC_A'']"
    by (intro conjI)
  note s = t [THEN conjunct1, rule_format, OF c0]
  from s have 1: "sorted (channel aligned_coalesced 0)" by (rule conjunct1)
  from s have d0: "distinct (channel aligned_coalesced 0)" by (elim conjE)
  have v0: "channel aligned_coalesced 0 = [''TCC_A[0]'', ''TCC_B[0]'']" by code_simp
  have v1: "channel aligned_coalesced 1 = [''TCC_A[1]'', ''TCC_B[1]'']" by code_simp
  note al = t [THEN conjunct2, THEN conjunct1, rule_format, OF c0 c1 h]
  from al have l: "length (channel aligned_coalesced 0) = length (channel aligned_coalesced 1)"
    by (rule conjunct1)
  have i0: "0 < length (channel aligned_coalesced 0)" by code_simp
  have i1: "1 < length (channel aligned_coalesced 0)" by code_simp
  note p = al [THEN conjunct2, rule_format]
  have a0: "counter_name (channel aligned_coalesced 0 ! 0) = counter_name (channel aligned_coalesced 1 ! 0)"
    using i0 by (rule p)
  have a1: "counter_name (channel aligned_coalesced 0 ! 1) = counter_name (channel aligned_coalesced 1 ! 1)"
    using i1 by (rule p)
  have b1: "counter_name (channel aligned_coalesced 0 ! 1) = ''TCC_B''" by code_simp
  have k: "''99'' \<notin> channel_keys vega10" by code_simp
  note o = t [THEN conjunct2, THEN conjunct2, rule_format, OF k]
  show ?thesis
    by (intro conjI) (fact aligned_coalesce_run vega10_config c0 c1 n1 n2 h0 h1 1 d0 v0 v1 l a0 a1 b1 k o)+
qed

theorem channels_sorted_counterexample:
  "map_sum id
     (\<lambda>r. (bucket (TCC2 (fst r)) ''99'', map (\<lambda>ch. map counter_name (channel (fst r) ch)) [0..<16]))
     (perfmon_coalesce (plain_dir ''wd/perfmon'')
        [[''pmc: TCC_B[99] TCC_A[99] TCC_A[0] TCC_B[1] TCC_B[2] TCC_B[3] TCC_B[4] TCC_B[5] TCC_B[6] TCC_B[7] TCC_B[8] TCC_B[9] TCC_B[10] TCC_B[11] TCC_B[12] TCC_B[13] TCC_B[14] TCC_B[15]'']]
        ''wd'' ''vega10'')
   = Inr ([''TCC_B[99]'', ''TCC_A[99]''],
          [[''TCC_A''], [''TCC_B''], [''TCC_B''], [''TCC_B''], [''TCC_B''], [''TCC_B''], [''TCC_B''],
           [''TCC_B''], [''TCC_B''], [''TCC_B''], [''TCC_B''], [''TCC_B''], [''TCC_B''], [''TCC_B''],
           [''TCC_B''], [''TCC_B'']])
   \<and> \<not> sorted [''TCC_B[99]'', ''TCC_A[99]'']
   \<and> map_sum id (\<lambda>r. (channel (fst r) 1, channel (fst r) 9))
       (perfmon_coalesce (plain_dir ''wd/perfmon'')
          [[''pmc: TCC_A[1] TCC_A[5[1] TCC_A[9] TCC_A[5[9]'']] ''wd'' ''vega10'')
     = Inr ([''TCC_A[1]'', ''TCC_A[5[1]''], [''TCC_A[5[9]'', ''TCC_A[9]''])"
  by code_simp

text \<open>
  C7, as the code has it. A counter-list line that holds the accumulator token is set
  aside whole: the stripped line with all its tokens, then an empty line and the lines
  \<open>gpu:\<close>, \<open>range:\<close> and \<open>kernel:\<close>, is written to a specification file named after the
  token before the first accumulator (the last token when the accumulator comes first),
  and the buckets stay as they were. When that file cannot be written, the exception
  of the file system leaves the function; the line raises nothing else.

  The claim as stated fails on the input of the counterexample below: \<open>SQ_WAVES\<close> stands
  on the line of a level counter, is written to the level counter's file and enters no
  bucket, while on a line of its own it enters the SQ bucket.
\<close>

theorem accumulator_line_set_aside:
  assumes m: "pmc_match (stext_of line) = Some g"
    and a: "accum \<in> set (split_ws g)"
  shows "process_line open_w dir st line
         = (let path = dir @ ''/''
                  @ (if index_of accum (split_ws g) = 0 then last (split_ws g)
                     else split_ws g ! (index_of accum (split_ws g) - 1))
                  @ ''.txt''
            in case open_w path of
                 Some e \<Rightarrow> Inl e
               | None \<Rightarrow>
                   Inr (fst st,
                        AList.update path
                          [stext_of line @ [CHR 0x0A, CHR 0x0A], ''gpu:'' @ [CHR 0x0A],
                           ''range:'' @ [CHR 0x0A], ''kernel:'' @ [CHR 0x0A]]
                          (snd st)))"
  using process_line_accum [OF m a, of open_w dir st]
  by (simp add: spec_file_def Let_def split: option.split)

theorem accumulator_line_set_aside_witness:
  "pmc_match (stext_of ''pmc: SQ_WAVES SQ_INST_LEVEL_VMEM SQ_ACCUM_PREV_HIRES # level'')
     = Some '' SQ_WAVES SQ_INST_LEVEL_VMEM SQ_ACCUM_PREV_HIRES''
   \<and> accum \<in> set (split_ws '' SQ_WAVES SQ_INST_LEVEL_VMEM SQ_ACCUM_PREV_HIRES'')
   \<and> process_line (plain_dir ''wd/perfmon'') ''wd/perfmon'' (example_coalesced, [])
       ''pmc: SQ_WAVES SQ_INST_LEVEL_VMEM SQ_ACCUM_PREV_HIRES # level''
     = Inr (example_coalesced,
            [(''wd/perfmon/SQ_INST_LEVEL_VMEM.txt'',
              [''pmc: SQ_WAVES SQ_INST_LEVEL_VMEM SQ_ACCUM_PREV_HIRES'' @ [CHR 0x0A, CHR 0x0A],
               ''gpu:'' @ [CHR 0x0A], ''range:'' @ [CHR 0x0A], ''kernel:'' @ [CHR 0x0A]])])
   \<and> pmc_match (stext_of ''pmc: SQ_A/B SQ_ACCUM_PREV_HIRES'') = Some '' SQ_A/B SQ_ACCUM_PREV_HIRES''
   \<and> accum \<in> set (split_ws '' SQ_A/B SQ_ACCUM_PREV_HIRES'')
   \<and> process_line (plain_dir ''wd/perfmon'') ''wd/perfmon'' (example_coalesced, [])
       ''pmc: SQ_A/B SQ_ACCUM_PREV_HIRES''
     = Inl OSError"
proof -
  let ?line = "''pmc: SQ_WAVES SQ_INST_LEVEL_VMEM SQ_ACCUM_PREV_HIRES # level''"
  let ?g = "'' SQ_WAVES SQ_INST_LEVEL_VMEM SQ_ACCUM_PREV_HIRES''"
  let ?line' = "''pmc: SQ_A/B SQ_ACCUM_PREV_HIRES''"
  let ?g' = "'' SQ_A/B SQ_ACCUM_PREV_HIRES''"
  let ?st = "(example_coalesced, []) :: pmc_list \<times> files"
  have m: "pmc_match (stext_of ?line) = Some ?g" by code_simp
  have a: "accum \<in> set (split_ws ?g)" by code_simp
  have m': "pmc_match (stext_of ?line') = Some ?g'" by code_simp
  have a': "accum \<in> set (split_ws ?g')" by code_simp
  have e: "(let path = ''wd/perfmon'' @ ''/''
                  @ (if index_of accum (split_ws ?g) = 0 then last (split_ws ?g)
                     else split_ws ?g ! (index_of accum (split_ws ?g) - 1))
                  @ ''.txt''
            in case plain_dir ''wd/perfmon'' path of
                 Some e \<Rightarrow> Inl e
               | None \<Rightarrow>
                   Inr (fst ?st,
                        AList.update path
                          [stext_of ?line @ [CHR 0x0A, CHR 0x0A], ''gpu:'' @ [CHR 0x0A],
                           ''range:'' @ [CHR 0x0A], ''kernel:'' @ [CHR 0x0A]]
                          (snd ?st)))
           = Inr (example_coalesced,
            [(''wd/perfmon/SQ_INST_LEVEL_VMEM.txt'',
              [''pmc: SQ_WAVES SQ_INST_LEVEL_VMEM SQ_ACCUM_PREV_HIRES'' @ [CHR 0x0A, CHR 0x0A],
               ''gpu:'' @ [CHR 0x0A], ''range:'' @ [CHR 0x0A], ''kernel:'' @ [CHR 0x0A]])])"
    by code_simp
  have e': "(let path = ''wd/perfmon'' @ ''/''
                  @ (if index_of accum (split_ws ?g') = 0 then last (split_ws ?g')
                     else split_ws ?g' ! (index_of accum (split_ws ?g') - 1))
                  @ ''.txt''
            in case plain_dir ''wd/perfmon'' path of
                 Some e \<Rightarrow> Inl e
               | None \<Rightarrow>
                   Inr (fst ?st,
                        AList.update path
                          [stext_of ?line' @ [CHR 0x0A, CHR 0x0A], ''gpu:'' @ [CHR 0x0A],
                           ''range:'' @ [CHR 0x0A], ''kernel:'' @ [CHR 0x0A]]
                          (snd ?st)))
           = Inl OSError"
    by code_simp
  note t = accumulator_line_set_aside [OF m a, of "plain_dir ''wd/perfmon''" "''wd/perfmon''" ?st]
  note t' = accumulator_line_set_aside [OF m' a', of "plain_dir ''wd/perfmon''" "''wd/perfmon''" ?st]
  from t e have 1: "process_line (plain_dir ''wd/perfmon'') ''wd/perfmon'' ?st ?line
     = Inr (example_coalesced,
            [(''wd/perfmon/SQ_INST_LEVEL_VMEM.txt'',
              [''pmc: SQ_WAVES SQ_INST_LEVEL_VMEM SQ_ACCUM_PREV_HIRES'' @ [CHR 0x0A, CHR 0x0A],
               ''gpu:'' @ [CHR 0x0A], ''range:'' @ [CHR 0x0A], ''kernel:'' @ [CHR 0x0A]])])"
    by (rule trans)
  from t' e' have 2: "process_line (plain_dir ''wd/perfmon'') ''wd/perfmon'' ?st ?line' = Inl OSError"
    by (rule trans)
  show ?thesis
    by (intro conjI) (fact m a 1 m' a' 2)+
qed

theorem accumulator_line_set_aside_counterexample:
  "perfmon_coalesce (plain_dir ''wd/perfmon'')
     [[''pmc: SQ_WAVES SQ_INST_LEVEL_VMEM SQ_ACCUM_PREV_HIRES'']] ''wd'' ''vega10''
   = Inr (initial_buckets 16,
          [(''wd/perfmon/SQ_INST_LEVEL_VMEM.txt'',
            [''pmc: SQ_WAVES SQ_INST_LEVEL_VMEM SQ_ACCUM_PREV_HIRES'' @ [CHR 0x0A, CHR 0x0A],
             ''gpu:'' @ [CHR 0x0A], ''range:'' @ [CHR 0x0A], ''kernel:'' @ [CHR 0x0A]])])
   \<and> bucket (blocks (initial_buckets 16)) ''SQ'' = []
   \<and> map_sum id (\<lambda>r. bucket (blocks (fst r)) ''SQ'')
       (perfmon_coalesce (plain_dir ''wd/perfmon'') [[''pmc: SQ_WAVES'']] ''wd'' ''vega10'')
     = Inr [''SQ_WAVES'']"
  by code_simp

text \<open>
  C8, as the code has it. The line loop has no parse error. A line that carries the
  marker and no token after it is skipped without error, like a line without the marker
  and an empty or comment-only line: the buckets and the files stay as they were, and
  the file system is not touched.

  The claim as stated fails on the input of the counterexample below: the line \<open>pmc:\<close>
  carries the marker and no token, and \<open>perfmon_coalesce\<close> returns the empty buckets.
\<close>

theorem skipped_lines_no_error:
  assumes "stext_of line = [] \<or> pmc_match (stext_of line) = None
           \<or> (\<exists>g. pmc_match (stext_of line) = Some g \<and> split_ws g = [])"
  shows "process_line open_w dir st line = Inr st"
  using assms by (auto simp: process_line_def Let_def)

theorem skipped_lines_no_error_witness:
  "pmc_match (stext_of ''pmc:   # nothing'') = Some []
   \<and> split_ws [] = []
   \<and> process_line (\<lambda>path. Some OSError) ''wd/perfmon'' (example_coalesced, example_files)
       ''pmc:   # nothing''
     = Inr (example_coalesced, example_files)
   \<and> pmc_match (stext_of ''gpu: 0 1'') = None
   \<and> process_line (\<lambda>path. Some OSError) ''wd/perfmon'' (example_coalesced, example_files)
       ''gpu: 0 1''
     = Inr (example_coalesced, example_files)
   \<and> stext_of ''  # pmc: SQ_WAVES'' = []
   \<and> process_line (\<lambda>path. Some OSError) ''wd/perfmon'' (example_coalesced, example_files)
       ''  # pmc: SQ_WAVES''
     = Inr (example_coalesced, example_files)"
proof -
  let ?st = "(example_coalesced, example_files)"
  let ?os = "(\<lambda>path. Some OSError) :: file_system"
  have m: "pmc_match (stext_of ''pmc:   # nothing'') = Some []" by code_simp
  have s: "split_ws [] = []" by code_simp
  from m s have "\<exists>g. pmc_match (stext_of ''pmc:   # nothing'') = Some g \<and> split_ws g = []"
    by (intro exI [of _ "[]"] conjI)
  then have h: "stext_of ''pmc:   # nothing'' = [] \<or> pmc_match (stext_of ''pmc:   # nothing'') = None
      \<or> (\<exists>g. pmc_match (stext_of ''pmc:   # nothing'') = Some g \<and> split_ws g = [])"
    by (intro disjI2)
  have 1: "process_line ?os ''wd/perfmon'' ?st ''pmc:   # nothing'' = Inr ?st"
    using h by (rule skipped_lines_no_error)
  have n: "pmc_match (stext_of ''gpu: 0 1'') = None" by code_simp
  then have h2: "stext_of ''gpu: 0 1'' = [] \<or> pmc_match (stext_of ''gpu: 0 1'') = None
      \<or> (\<exists>g. pmc_match (stext_of ''gpu: 0 1'') = Some g \<and> split_ws g = [])"
    by (intro disjI2 disjI1)
  have 2: "process_line ?os ''wd/perfmon'' ?st ''gpu: 0 1'' = Inr ?st"
    using h2 by (rule skipped_lines_no_error)
  have c: "stext_of ''  # pmc: SQ_WAVES'' = []" by code_simp
  then have h3: "stext_of ''  # pmc: SQ_WAVES'' = [] \<or> pmc_match (stext_of ''  # pmc: SQ_WAVES'') = None
      \<or> (\<exists>g. pmc_match (stext_of ''  # pmc: SQ_WAVES'') = Some g \<and> split_ws g = [])"
    by (intro disjI1)
  have 3: "process_line ?os ''wd/perfmon'' ?st ''  # pmc: SQ_WAVES'' = Inr ?st"
    using h3 by (rule skipped_lines_no_error)
  show ?thesis
    by (intro conjI) (fact m s 1 n 2 c 3)+
qed

theorem skipped_lines_no_error_counterexample:
  "pmc_match (stext_of ''pmc:'') = Some []
   \<and> split_ws [] = []
   \<and> perfmon_coalesce (plain_dir ''wd/perfmon'') [[''pmc:'']] ''wd'' ''vega10''
     = Inr (initial_buckets 16, [])"
  by code_simp

text \<open>
  C10. When the accumulator is the first token of a counter-list line, the index before
  it is -1, which Python reads as the last token of the line: that token names the
  specification file, and the missing sibling raises no error. The line is then written
  to the file of that name, and the only exception is that of the file system when the
  file cannot be written.
\<close>

theorem accumulator_first_takes_last:
  assumes m: "pmc_match (stext_of line) = Some g"
    and a: "split_ws g = accum # rest"
  shows "py_index (split_ws g) (int (index_of accum (split_ws g)) - 1) = Inr (last (accum # rest))
         \<and> process_line open_w dir st line
           = (case open_w (dir @ ''/'' @ last (accum # rest) @ ''.txt'') of
                Some e \<Rightarrow> Inl e
              | None \<Rightarrow>
                  Inr (fst st,
                       AList.update (dir @ ''/'' @ last (accum # rest) @ ''.txt'')
                         [stext_of line @ [CHR 0x0A, CHR 0x0A], ''gpu:'' @ [CHR 0x0A],
                          ''range:'' @ [CHR 0x0A], ''kernel:'' @ [CHR 0x0A]]
                         (snd st)))"
proof -
  have mem: "accum \<in> set (split_ws g)" by (simp add: a)
  have 0: "index_of accum (split_ws g) = 0" by (simp add: a index_of_hd)
  from py_index_before [OF mem] 0
  have 1: "py_index (split_ws g) (int (index_of accum (split_ws g)) - 1) = Inr (last (accum # rest))"
    by (simp add: a)
  from process_line_accum [OF m mem, of open_w dir st]
  have 2: "process_line open_w dir st line
           = (case open_w (dir @ ''/'' @ last (accum # rest) @ ''.txt'') of
                Some e \<Rightarrow> Inl e
              | None \<Rightarrow>
                  Inr (fst st,
                       AList.update (dir @ ''/'' @ last (accum # rest) @ ''.txt'')
                         [stext_of line @ [CHR 0x0A, CHR 0x0A], ''gpu:'' @ [CHR 0x0A],
                          ''range:'' @ [CHR 0x0A], ''kernel:'' @ [CHR 0x0A]]
                         (snd st)))"
    by (simp add: a index_of_hd Let_def spec_file_def split: option.split)
  from 1 2 show ?thesis ..
qed

theorem accumulator_first_takes_last_witness:
  "pmc_match (stext_of ''pmc: SQ_ACCUM_PREV_HIRES SQ_A SQ_B'') = Some '' SQ_ACCUM_PREV_HIRES SQ_A SQ_B''
   \<and> split_ws '' SQ_ACCUM_PREV_HIRES SQ_A SQ_B'' = accum # [''SQ_A'', ''SQ_B'']
   \<and> py_index (split_ws '' SQ_ACCUM_PREV_HIRES SQ_A SQ_B'')
       (int (index_of accum (split_ws '' SQ_ACCUM_PREV_HIRES SQ_A SQ_B'')) - 1) = Inr ''SQ_B''
   \<and> process_line (plain_dir ''wd/perfmon'') ''wd/perfmon'' (example_coalesced, [])
       ''pmc: SQ_ACCUM_PREV_HIRES SQ_A SQ_B''
     = Inr (example_coalesced,
            [(''wd/perfmon/SQ_B.txt'',
              [''pmc: SQ_ACCUM_PREV_HIRES SQ_A SQ_B'' @ [CHR 0x0A, CHR 0x0A], ''gpu:'' @ [CHR 0x0A],
               ''range:'' @ [CHR 0x0A], ''kernel:'' @ [CHR 0x0A]])])
   \<and> process_line (\<lambda>path. if path = ''wd/perfmon/SQ_B.txt'' then Some OSError else None)
       ''wd/perfmon'' (example_coalesced, []) ''pmc: SQ_ACCUM_PREV_HIRES SQ_A SQ_B''
     = Inl OSError"
proof -
  let ?line = "''pmc: SQ_ACCUM_PREV_HIRES SQ_A SQ_B''"
  let ?g = "'' SQ_ACCUM_PREV_HIRES SQ_A SQ_B''"
  let ?st = "(example_coalesced, []) :: pmc_list \<times> files"
  let ?os = "(\<lambda>path. if path = ''wd/perfmon/SQ_B.txt'' then Some OSError else None) :: file_system"
  have m: "pmc_match (stext_of ?line) = Some ?g" by code_simp
  have a: "split_ws ?g = accum # [''SQ_A'', ''SQ_B'']" by code_simp
  have s: "stext_of ?line = ?line" by code_simp
  have p: "plain_dir ''wd/perfmon'' ''wd/perfmon/SQ_B.txt'' = None" by code_simp
  note t = accumulator_first_takes_last [OF m a, of "plain_dir ''wd/perfmon''" "''wd/perfmon''" ?st]
  note t' = accumulator_first_takes_last [OF m a, of ?os "''wd/perfmon''" ?st]
  from t have 1: "py_index (split_ws ?g) (int (index_of accum (split_ws ?g)) - 1) = Inr ''SQ_B''"
    by simp
  from t p s have 2: "process_line (plain_dir ''wd/perfmon'') ''wd/perfmon'' ?st ?line
     = Inr (example_coalesced,
            [(''wd/perfmon/SQ_B.txt'',
              [''pmc: SQ_ACCUM_PREV_HIRES SQ_A SQ_B'' @ [CHR 0x0A, CHR 0x0A], ''gpu:'' @ [CHR 0x0A],
               ''range:'' @ [CHR 0x0A], ''kernel:'' @ [CHR 0x0A]])])"
    by simp
  from t' have 3: "process_line ?os ''wd/perfmon'' ?st ?line = Inl OSError"
    by simp
  show ?thesis
    by (intro conjI) (fact m a 1 2 3)+
qed
end
